theory Spec2Isabelle
  imports Complex_Main "HOL-Library.Multiset" "HOL-Library.Word"
begin

section \<open>Induction of a regression tree: CRTree.cpp\<close>

text \<open>
  A shallow embedding of \<^verbatim>\<open>src/src/CRTree.cpp\<close>: the constructor, \<^verbatim>\<open>growTree\<close>,
  \<^verbatim>\<open>grow\<close>, \<^verbatim>\<open>optimizeTest\<close>, \<^verbatim>\<open>generateTest\<close>, \<^verbatim>\<open>evaluateTest\<close>, \<^verbatim>\<open>split\<close>,
  \<^verbatim>\<open>measureInformationGain\<close> and \<^verbatim>\<open>makeLeaf\<close>. Vectors are lists, the members of the
  class and the process-wide random generator are fields of one record that every
  operation takes and returns, and every read or write the C++ leaves undefined
  (an index past the end of a vector, a pixel outside a patch, a cell outside the node
  table, a division by zero) is a value of the type \<open>fault\<close>.
\<close>

subsection \<open>Data\<close>

datatype fault =
    VectorIndex
  | PixelIndex
  | IndeterminateRead
  | TableIndex nat
  | DivideByZero
  | BadAlloc

text \<open>
  A patch points to a single-channel 8-bit \<^verbatim>\<open>cv::Mat\<close>; the pixels are kept row by row.
  \<^verbatim>\<open>at<uchar>(i, j)\<close> reads row \<open>i\<close>, column \<open>j\<close>; outside the grid the read is a fault.
\<close>

record Mat =
  rows :: nat
  cols :: nat
  pixels :: "8 word list"

definition at_uchar :: "Mat \<Rightarrow> int \<Rightarrow> int \<Rightarrow> fault + 8 word" where
  "at_uchar m i j =
     (if 0 \<le> i \<and> i < int (rows m) \<and> 0 \<le> j \<and> j < int (cols m)
         \<and> nat i * cols m + nat j < length (pixels m)
      then Inr (pixels m ! (nat i * cols m + nat j))
      else Inl PixelIndex)"

record ImagePatch =
  patch :: Mat
  pitch :: real
  yaw :: real

text \<open>
  Modelled from the spec: \<^verbatim>\<open>IntIndex\<close> and its ordering are declared in \<^verbatim>\<open>CRTree.h\<close>,
  which is not among the sources. The spec's ScoredIndex pairs a signed difference with a
  position in the working set and is sorted ascending by the difference; the source
  constructs it as \<^verbatim>\<open>IntIndex(m1 - m2, i)\<close> and reads \<^verbatim>\<open>.difference\<close> and \<^verbatim>\<open>.index\<close>.
\<close>

record IntIndex =
  difference :: int
  index :: nat

text \<open>
  A cell of an \<^verbatim>\<open>int\<close> array: \<open>Some v\<close> once a value has been assigned, \<open>None\<close> while
  the cell is indeterminate (\<^verbatim>\<open>int tmpTest[6]\<close> and \<^verbatim>\<open>int test[6]\<close> are declared without
  an initialiser, and \<^verbatim>\<open>generateTest\<close> assigns the cells 0 to 3 only).
\<close>

type_synonym cell = "int option"

definition indeterminate6 :: "cell list" where
  "indeterminate6 = [None, None, None, None, None, None]"

subsection \<open>The random source\<close>

text \<open>
  \<^verbatim>\<open>cv::theRNG()\<close> is a collaborator: its state is the stream of raw 32-bit outputs and
  the position reached in it. \<^verbatim>\<open>uniform(a, b)\<close> is OpenCV's inline
  \<^verbatim>\<open>a == b ? a : (int)(next() % (b - a) + a)\<close>, in 32-bit unsigned arithmetic; it
  draws nothing when \<open>a = b\<close>.
\<close>

record RNG =
  raw :: "nat \<Rightarrow> nat"
  pos :: nat

definition to_unsigned :: "int \<Rightarrow> nat" where
  "to_unsigned x = nat (x mod 2 ^ 32)"

definition to_int :: "nat \<Rightarrow> int" where
  "to_int u = (if u mod 2 ^ 32 < 2 ^ 31 then int (u mod 2 ^ 32) else int (u mod 2 ^ 32) - 2 ^ 32)"

definition next_raw :: "RNG \<Rightarrow> nat \<times> RNG" where
  "next_raw g = (raw g (pos g) mod 2 ^ 32, g\<lparr>pos := Suc (pos g)\<rparr>)"

definition uniform :: "int \<Rightarrow> int \<Rightarrow> RNG \<Rightarrow> int \<times> RNG" where
  "uniform a b g =
     (if a = b then (a, g)
      else (to_int (fst (next_raw g) mod to_unsigned (b - a) + to_unsigned a), snd (next_raw g)))"

subsection \<open>generateTest\<close>

text \<open>
  The four coordinates are drawn in the order x1, y1, x2, y2; the cells 4 and 5 of the
  array keep what they held.
\<close>

definition generateTest :: "cell list \<Rightarrow> nat \<Rightarrow> nat \<Rightarrow> RNG \<Rightarrow> cell list \<times> RNG" where
  "generateTest t width height g =
     (let (v0, g0) = uniform 0 (int width) g;
          (v1, g1) = uniform 0 (int height) g0;
          (v2, g2) = uniform 0 (int width) g1;
          (v3, g3) = uniform 0 (int height) g2
      in (t[0 := Some v0, 1 := Some v1, 2 := Some v2, 3 := Some v3], g3))"

subsection \<open>evaluateTest\<close>

text \<open>
  The loop appends one entry per patch to the vector it is given; nothing in
  \<^verbatim>\<open>evaluateTest\<close> empties that vector first. \<^verbatim>\<open>std::sort\<close> then sorts the whole
  vector by the difference. The standard leaves the order of equal keys open; the model
  sorts stably.
\<close>

fun evaluate_loop ::
  "ImagePatch list \<Rightarrow> int \<Rightarrow> int \<Rightarrow> int \<Rightarrow> int \<Rightarrow> nat \<Rightarrow> IntIndex list \<Rightarrow> fault + IntIndex list" where
  "evaluate_loop [] x1 y1 x2 y2 i vs = Inr vs"
| "evaluate_loop (p # ps) x1 y1 x2 y2 i vs =
     (case at_uchar (patch p) y1 x1 of
        Inl e \<Rightarrow> Inl e
      | Inr m1 \<Rightarrow>
          (case at_uchar (patch p) y2 x2 of
             Inl e \<Rightarrow> Inl e
           | Inr m2 \<Rightarrow>
               evaluate_loop ps x1 y1 x2 y2 (Suc i)
                 (vs @ [\<lparr>difference = uint m1 - uint m2, index = i\<rparr>])))"

definition evaluateTest :: "ImagePatch list \<Rightarrow> cell list \<Rightarrow> IntIndex list \<Rightarrow> fault + IntIndex list" where
  "evaluateTest dat t vs =
     (case (t ! 0, t ! 1, t ! 2, t ! 3) of
        (Some x1, Some y1, Some x2, Some y2) \<Rightarrow>
          (case evaluate_loop dat x1 y1 x2 y2 0 vs of
             Inl e \<Rightarrow> Inl e
           | Inr vs' \<Rightarrow> Inr (sort_key difference vs'))
      | _ \<Rightarrow> Inl IndeterminateRead)"

subsection \<open>split\<close>

text \<open>
  \<^verbatim>\<open>std::upper_bound\<close> as the standard libraries implement it: a binary search over the
  remaining length that moves left when \<open>cmp value middle\<close> holds and right of the
  middle otherwise. The comparison the source passes is
  \<^verbatim>\<open>[](const int threshold, const IntIndex& a) {return a.difference < threshold;}\<close>.
\<close>

function upper_bound_loop :: "('v \<Rightarrow> 'a \<Rightarrow> bool) \<Rightarrow> 'a list \<Rightarrow> 'v \<Rightarrow> nat \<Rightarrow> nat \<Rightarrow> nat" where
  "upper_bound_loop cmp xs val first len =
     (if 0 < len
      then (let half = len div 2; middle = first + half
            in if cmp val (xs ! middle)
               then upper_bound_loop cmp xs val first half
               else upper_bound_loop cmp xs val (middle + 1) (len - half - 1))
      else first)"
  by pat_completeness auto
termination
  by (relation "measure (\<lambda>(cmp, xs, val, first, len). len)") auto

definition upper_bound :: "'a list \<Rightarrow> 'v \<Rightarrow> ('v \<Rightarrow> 'a \<Rightarrow> bool) \<Rightarrow> nat" where
  "upper_bound xs val cmp = upper_bound_loop cmp xs val 0 (length xs)"

definition split_comp :: "int \<Rightarrow> IntIndex \<Rightarrow> bool" where
  "split_comp threshold a = (difference a < threshold)"

text \<open>
  The two loops push \<^verbatim>\<open>data[(*it).index]\<close> onto the vectors they are given: entries before
  the cutoff onto \<open>partA\<close>, the others onto \<open>partB\<close>. An index past the end of \<open>data\<close> is
  a fault.
\<close>

definition split ::
  "ImagePatch list \<Rightarrow> int \<Rightarrow> IntIndex list \<Rightarrow> ImagePatch list \<Rightarrow> ImagePatch list
     \<Rightarrow> fault + (ImagePatch list \<times> ImagePatch list)" where
  "split dat tr vs pA pB =
     (let cutoff = upper_bound vs tr split_comp
      in if list_all (\<lambda>v. index v < length dat) vs
         then Inr (pA @ map (\<lambda>v. dat ! index v) (take cutoff vs),
                   pB @ map (\<lambda>v. dat ! index v) (drop cutoff vs))
         else Inl VectorIndex)"

subsection \<open>measureInformationGain\<close>

text \<open>
  A \<^verbatim>\<open>double\<close> is a finite value, an infinity or a NaN. Finite values are reals: the
  rounding of finite results is not modelled, the special values and the comparison are
  those of IEEE 754 (a NaN compares false with everything).
\<close>

datatype double = NaN | NegInf | Fin real | PosInf

fun dsub :: "double \<Rightarrow> double \<Rightarrow> double" where
  "dsub NaN y = NaN"
| "dsub x NaN = NaN"
| "dsub PosInf PosInf = NaN"
| "dsub NegInf NegInf = NaN"
| "dsub PosInf y = PosInf"
| "dsub NegInf y = NegInf"
| "dsub (Fin a) PosInf = NegInf"
| "dsub (Fin a) NegInf = PosInf"
| "dsub (Fin a) (Fin b) = Fin (a - b)"

fun dmul :: "double \<Rightarrow> double \<Rightarrow> double" where
  "dmul NaN y = NaN"
| "dmul x NaN = NaN"
| "dmul (Fin a) (Fin b) = Fin (a * b)"
| "dmul (Fin a) PosInf = (if a = 0 then NaN else if 0 < a then PosInf else NegInf)"
| "dmul (Fin a) NegInf = (if a = 0 then NaN else if 0 < a then NegInf else PosInf)"
| "dmul PosInf (Fin b) = (if b = 0 then NaN else if 0 < b then PosInf else NegInf)"
| "dmul NegInf (Fin b) = (if b = 0 then NaN else if 0 < b then NegInf else PosInf)"
| "dmul PosInf PosInf = PosInf"
| "dmul PosInf NegInf = NegInf"
| "dmul NegInf PosInf = NegInf"
| "dmul NegInf NegInf = PosInf"

fun dlog :: "double \<Rightarrow> double" where
  "dlog NaN = NaN"
| "dlog NegInf = NaN"
| "dlog PosInf = PosInf"
| "dlog (Fin a) = (if a < 0 then NaN else if a = 0 then NegInf else Fin (ln a))"

fun dgt :: "double \<Rightarrow> double \<Rightarrow> bool" where
  "dgt NaN y = False"
| "dgt x NaN = False"
| "dgt NegInf y = False"
| "dgt x PosInf = False"
| "dgt PosInf y = True"
| "dgt x NegInf = True"
| "dgt (Fin a) (Fin b) = (b < a)"

definition DBL_MAX :: real where
  "DBL_MAX = (2 - 1 / 2 ^ 52) * 2 ^ 1023"

text \<open>
  Modelled from the spec: \<^verbatim>\<open>cv::calcCovarMatrix\<close> (with
  \<^verbatim>\<open>CV_COVAR_NORMAL | CV_COVAR_SCALE\<close>), \<^verbatim>\<open>cv::determinant\<close> and \<^verbatim>\<open>log\<close> belong to
  OpenCV and the C library. The spec has the covariance matrix of the two columns pitch
  and yaw, normalised by the number of samples, then its determinant, then the natural
  logarithm. \<open>lndet\<close> is that composition for one set of patches.
\<close>

definition mean :: "real list \<Rightarrow> real" where
  "mean xs = sum_list xs / real (length xs)"

definition covar :: "real list \<Rightarrow> real list \<Rightarrow> real" where
  "covar xs ys =
     (let mx = mean xs; my = mean ys
      in sum_list (map2 (\<lambda>x y. (x - mx) * (y - my)) xs ys) / real (length xs))"

definition determinant :: "ImagePatch list \<Rightarrow> real" where
  "determinant S =
     covar (map pitch S) (map pitch S) * covar (map yaw S) (map yaw S)
       - covar (map pitch S) (map yaw S) * covar (map yaw S) (map pitch S)"

definition lndet :: "ImagePatch list \<Rightarrow> double" where
  "lndet S = (if S = [] then NaN else dlog (Fin (determinant S)))"

text \<open>
  \<^verbatim>\<open>double Wl = partA.size()/parent.size();\<close> divides two \<^verbatim>\<open>size_t\<close> values: the quotient
  is the integer quotient, converted to \<^verbatim>\<open>double\<close> afterwards. The score is
  \<^verbatim>\<open>log(det covP) - Wr*log(det covPr) - Wl*log(det covPl)\<close>, read left to right.
\<close>

definition weight :: "ImagePatch list \<Rightarrow> ImagePatch list \<Rightarrow> fault + nat" where
  "weight part parent =
     (if length parent = 0 then Inl DivideByZero else Inr (length part div length parent))"

definition measureInformationGain ::
  "ImagePatch list \<Rightarrow> ImagePatch list \<Rightarrow> ImagePatch list \<Rightarrow> fault + double" where
  "measureInformationGain parent pA pB =
     (case weight pA parent of
        Inl e \<Rightarrow> Inl e
      | Inr Wl \<Rightarrow>
          (case weight pB parent of
             Inl e \<Rightarrow> Inl e
           | Inr Wr \<Rightarrow>
               Inr (dsub (dsub (lndet parent) (dmul (Fin (real Wr)) (lndet pB)))
                         (dmul (Fin (real Wl)) (lndet pA)))))"

subsection \<open>optimizeTest\<close>

text \<open>
  The locals of \<^verbatim>\<open>optimizeTest\<close> that live across iterations, the two output vectors,
  the output test and the random source. \<open>tmpA\<close>, \<open>tmpB\<close> and \<open>valSet\<close> are declared
  before the loops and are only ever appended to.
\<close>

record search =
  tmpA :: "ImagePatch list"
  tmpB :: "ImagePatch list"
  valSet :: "IntIndex list"
  bestSplit :: double
  ret :: bool
  test :: "cell list"
  partA :: "ImagePatch list"
  partB :: "ImagePatch list"
  rng :: RNG

text \<open>
  The inner loop, \<^verbatim>\<open>for (j = 0; j < N_THRESHOLD_IT; j++)\<close>. \<^verbatim>\<open>N_THRESHOLD_IT\<close> is a
  macro of \<^verbatim>\<open>CRTree.h\<close> and is a parameter here (\<open>N\<close>).
\<close>

function threshold_loop ::
  "ImagePatch list \<Rightarrow> cell list \<Rightarrow> int \<Rightarrow> int \<Rightarrow> nat \<Rightarrow> nat \<Rightarrow> search \<Rightarrow> fault + search" where
  "threshold_loop dat tmpTest vmin vmax N j s =
     (if j < N
      then (let (tr, g) = uniform vmin vmax (rng s)
            in case split dat tr (valSet s) (tmpA s) (tmpB s) of
                 Inl e \<Rightarrow> Inl e
               | Inr (a, b) \<Rightarrow>
                   (let s1 = s\<lparr>tmpA := a, tmpB := b, rng := g\<rparr>
                    in if 0 < length a \<and> 0 < length b
                       then (case measureInformationGain dat a b of
                               Inl e \<Rightarrow> Inl e
                             | Inr score \<Rightarrow>
                                 if dgt score (bestSplit s1)
                                 then threshold_loop dat tmpTest vmin vmax N (j + 1)
                                        (s1\<lparr>ret := True, bestSplit := score,
                                            test := tmpTest[5 := Some tr],
                                            partA := a, partB := b\<rparr>)
                                 else threshold_loop dat tmpTest vmin vmax N (j + 1) s1)
                       else threshold_loop dat tmpTest vmin vmax N (j + 1) s1))
      else Inr s)"
  by pat_completeness auto
termination
  by (relation "measure (\<lambda>(dat, tmpTest, vmin, vmax, N, j, s). N - j)") auto

text \<open>
  The outer loop, \<^verbatim>\<open>for (i = 0; i < iter; ++i)\<close>. \<^verbatim>\<open>int tmpTest[6]\<close> is declared
  afresh in each iteration. \<^verbatim>\<open>valSet.front()\<close> and \<^verbatim>\<open>valSet.back()\<close> of an empty
  vector are faults.
\<close>

function outer_loop ::
  "ImagePatch list \<Rightarrow> nat \<Rightarrow> nat \<Rightarrow> nat \<Rightarrow> nat \<Rightarrow> nat \<Rightarrow> search \<Rightarrow> fault + search" where
  "outer_loop dat width height N iter i s =
     (if i < iter
      then (let (tmpTest, g) = generateTest indeterminate6 width height (rng s)
            in case evaluateTest dat tmpTest (valSet s) of
                 Inl e \<Rightarrow> Inl e
               | Inr vs \<Rightarrow>
                   if vs = [] then Inl VectorIndex
                   else (let vmin = difference (hd vs); vmax = difference (last vs);
                             s1 = s\<lparr>valSet := vs, rng := g\<rparr>
                         in if 0 < vmax - vmin
                            then (case threshold_loop dat tmpTest vmin vmax N 0 s1 of
                                    Inl e \<Rightarrow> Inl e
                                  | Inr s2 \<Rightarrow> outer_loop dat width height N iter (i + 1) s2)
                            else outer_loop dat width height N iter (i + 1) s1))
      else Inr s)"
  by pat_completeness auto
termination
  by (relation "measure (\<lambda>(dat, width, height, N, iter, i, s). iter - i)") auto

text \<open>
  \<^verbatim>\<open>optimizeTest\<close> reads \<^verbatim>\<open>data[0]\<close> for the width and the height before the loops,
  whatever \<open>iter\<close> is. \<open>search_init\<close> gives the locals their values at that point. The
  function returns \<open>ret\<close>; the two parts, the test and the random source are returned
  with it, as the caller sees them afterwards.
\<close>

definition search_init :: "cell list \<Rightarrow> ImagePatch list \<Rightarrow> ImagePatch list \<Rightarrow> RNG \<Rightarrow> search" where
  "search_init t pA pB g =
     \<lparr>tmpA = [], tmpB = [], valSet = [], bestSplit = Fin (- DBL_MAX), ret = False,
      test = t, partA = pA, partB = pB, rng = g\<rparr>"

definition optimizeTest ::
  "nat \<Rightarrow> ImagePatch list \<Rightarrow> ImagePatch list \<Rightarrow> ImagePatch list \<Rightarrow> nat \<Rightarrow> cell list \<Rightarrow> RNG
     \<Rightarrow> fault + (bool \<times> ImagePatch list \<times> ImagePatch list \<times> cell list \<times> RNG)" where
  "optimizeTest N pA pB dat iter t g =
     (if dat = [] then Inl VectorIndex
      else (let width = cols (patch (dat ! 0)); height = rows (patch (dat ! 0))
            in case outer_loop dat width height N iter 0 (search_init t pA pB g) of
                 Inl e \<Rightarrow> Inl e
               | Inr s \<Rightarrow> Inr (ret s, partA s, partB s, test s, rng s)))"

subsection \<open>The tree and its construction\<close>

text \<open>
  The members of \<^verbatim>\<open>CRTree\<close>, with \<^verbatim>\<open>cv::theRNG()\<close> beside them. \<open>'l\<close> is the type
  \<^verbatim>\<open>LeafNode\<close>, declared in \<^verbatim>\<open>CRTree.h\<close>. The field \<open>calls\<close> is a history variable
  that the source does not have: \<open>grow\<close> records the node and the depth it is entered
  with, so that statements about the calls made can be written down.
\<close>

record 'l CRTree =
  minSamples :: int
  maxDepth :: int
  numLeaves :: int
  numNodes :: int
  treetable :: "cell list"
  leaf :: "'l list"
  theRNG :: RNG
  calls :: "(nat \<times> nat) list"

text \<open>
  \<^verbatim>\<open>numNodes = (int) pow(2.0, (int) (maxDepth + 1)) - 1\<close>: for \<open>maxDepth + 1 < 0\<close> the
  power is a fraction that truncates to 0, \<open>numNodes\<close> is \<open>-1\<close> and \<^verbatim>\<open>new int[-7]\<close>
  fails. From \<open>maxDepth = 28\<close> on, \<^verbatim>\<open>numNodes * 7\<close> no longer fits an \<^verbatim>\<open>int\<close>. The table
  is filled with zeros; the leaves are default-constructed (\<open>blank\<close>).
\<close>

definition new_CRTree :: "int \<Rightarrow> int \<Rightarrow> 'l \<Rightarrow> RNG \<Rightarrow> fault + 'l CRTree" where
  "new_CRTree minS maxD blank g =
     (if maxD < - 1 \<or> 27 < maxD then Inl BadAlloc
      else Inr \<lparr>minSamples = minS, maxDepth = maxD, numLeaves = 0,
                numNodes = 2 ^ nat (maxD + 1) - 1,
                treetable = replicate ((2 ^ nat (maxD + 1) - 1) * 7) (Some 0),
                leaf = replicate (if maxD < 0 then 0 else 2 ^ nat maxD) blank,
                theRNG = g, calls = []\<rparr>)"

subsection \<open>makeLeaf\<close>

text \<open>
  \<^verbatim>\<open>treetable[node*7] = numLeaves; numLeaves += 1;\<close> and nothing else: the line that
  would take the leaf is commented out and the statistics are a TODO.
\<close>

definition makeLeaf :: "ImagePatch list \<Rightarrow> nat \<Rightarrow> 'l CRTree \<Rightarrow> (fault \<times> 'l CRTree) + 'l CRTree" where
  "makeLeaf dat node st =
     (if node * 7 < length (treetable st)
      then Inr (st\<lparr>treetable := (treetable st)[node * 7 := Some (numLeaves st)],
                   numLeaves := numLeaves st + 1\<rparr>)
      else Inl (TableIndex (node * 7), st))"

subsection \<open>grow and growTree\<close>

text \<open>
  Consecutive cells of the node table are written one by one, from index \<open>i\<close> on:
  \<^verbatim>\<open>ptT[0] = -1\<close>, then the six cells of \<^verbatim>\<open>test\<close>. Cell 4 of \<^verbatim>\<open>test\<close> is never
  assigned; the copy carries the indeterminate value along, as \<open>None\<close>.
\<close>

fun write_cells :: "nat \<Rightarrow> cell list \<Rightarrow> cell list \<Rightarrow> fault + cell list" where
  "write_cells i [] tt = Inr tt"
| "write_cells i (v # vs) tt =
     (if i < length tt then write_cells (Suc i) vs (tt[i := v]) else Inl (TableIndex i))"

text \<open>
  \<^verbatim>\<open>partA.size() > minSamples\<close> compares a \<^verbatim>\<open>size_t\<close> with an \<^verbatim>\<open>int\<close>, which is converted
  to the unsigned 64-bit type first. \<^verbatim>\<open>depth < maxDepth\<close> compares an \<^verbatim>\<open>unsigned int\<close>
  with \<open>maxDepth\<close> converted to \<^verbatim>\<open>unsigned int\<close>; \<^verbatim>\<open>depth+1\<close> wraps at \<open>2 ^ 32\<close>.
\<close>

definition enough :: "ImagePatch list \<Rightarrow> int \<Rightarrow> bool" where
  "enough part minS = (nat (minS mod 2 ^ 64) < length part)"

function grow ::
  "nat \<Rightarrow> ImagePatch list \<Rightarrow> nat \<Rightarrow> nat \<Rightarrow> nat \<Rightarrow> 'l CRTree \<Rightarrow> (fault \<times> 'l CRTree) + 'l CRTree" where
  "grow N dat node depth samples st0 =
     (let st = st0\<lparr>calls := calls st0 @ [(node, depth)]\<rparr>
      in if depth < to_unsigned (maxDepth st) then makeLeaf dat node st
         else (case optimizeTest N [] [] dat samples indeterminate6 (theRNG st) of
                 Inl e \<Rightarrow> Inl (e, st)
               | Inr (found, pA, pB, t, g) \<Rightarrow>
                   if found
                   then (case write_cells (node * 7) (Some (- 1) # t) (treetable st) of
                           Inl e \<Rightarrow> Inl (e, st\<lparr>theRNG := g\<rparr>)
                         | Inr tt \<Rightarrow>
                             (case (if enough pA (minSamples st)
                                    then grow N pA (2 * node + 1) ((depth + 1) mod 2 ^ 32) samples
                                           (st\<lparr>theRNG := g, treetable := tt\<rparr>)
                                    else makeLeaf pA (2 * node + 1)
                                           (st\<lparr>theRNG := g, treetable := tt\<rparr>)) of
                                Inl e \<Rightarrow> Inl e
                              | Inr st2 \<Rightarrow>
                                  if enough pB (minSamples st2)
                                  then grow N pB (2 * node + 2) ((depth + 1) mod 2 ^ 32) samples st2
                                  else makeLeaf pB (2 * node + 2) st2))
                   else makeLeaf dat node (st\<lparr>theRNG := g\<rparr>)))"
  by pat_completeness auto

text \<open>
  \<^verbatim>\<open>growTree\<close> seeds the generator from the clock and starts at node 0 and depth 0, with
  the number of patches as the number of outer iterations of every split search. The
  generator as seeded is the argument \<open>seeded\<close>.
\<close>

definition growTree :: "nat \<Rightarrow> ImagePatch list \<Rightarrow> RNG \<Rightarrow> 'l CRTree \<Rightarrow> (fault \<times> 'l CRTree) + 'l CRTree" where
  "growTree N patches seeded st = grow N patches 0 0 (length patches) (st\<lparr>theRNG := seeded\<rparr>)"

subsection \<open>Concrete inputs\<close>

text \<open>
  Patches of one row and two columns: \<open>px2 v p y\<close> has the pixels \<open>v\<close> and \<open>0\<close> and
  the labels \<open>p\<close> (pitch) and \<open>y\<close> (yaw). With the test that compares the pixel at
  \<open>(0, 0)\<close> with the pixel at \<open>(1, 0)\<close> its difference is \<open>v\<close>. \<open>stream_of ds\<close> is the
  generator whose raw outputs are those of the list \<open>ds\<close>, followed by zeros;
  \<open>stream_then ds d\<close> has \<open>d\<close> for ever after the list.
\<close>

definition px2 :: "nat \<Rightarrow> real \<Rightarrow> real \<Rightarrow> ImagePatch" where
  "px2 v p y = \<lparr>patch = \<lparr>rows = 1, cols = 2, pixels = [of_nat v, 0]\<rparr>, pitch = p, yaw = y\<rparr>"

definition stream_of :: "nat list \<Rightarrow> RNG" where
  "stream_of ds = \<lparr>raw = (\<lambda>n. if n < length ds then ds ! n else 0), pos = 0\<rparr>"

definition stream_then :: "nat list \<Rightarrow> nat \<Rightarrow> RNG" where
  "stream_then ds d = \<lparr>raw = (\<lambda>n. if n < length ds then ds ! n else d), pos = 0\<rparr>"

definition five_patches :: "ImagePatch list" where
  "five_patches = [px2 1 0 0, px2 2 0 0, px2 3 0 0, px2 4 0 0, px2 5 0 0]"

text \<open>
  Four patches whose labels are the corners of a square: the covariance matrix of the
  labels is the identity, for the four patches and for any number of copies of them, so
  every logarithm of a determinant is exactly 0. Three patches have the difference 0
  and one has the difference 10.
\<close>

definition four_patches :: "ImagePatch list" where
  "four_patches = [px2 0 0 0, px2 0 2 0, px2 0 0 2, px2 10 2 2]"

definition four_draws :: RNG where
  "four_draws = stream_then [0, 0, 0, 0, 0, 0, 0, 0, 0, 0, 1, 0, 0] 5"

definition twelve_patches :: "ImagePatch list" where
  "twelve_patches = four_patches @ four_patches @ four_patches"

text \<open>
  The entries of \<open>valSet\<close> after two and after three evaluations of \<open>four_patches\<close>, the
  first two with a test that compares a pixel with itself, the third with the test that
  compares the two pixels of a patch.
\<close>

definition zeros8 :: "IntIndex list" where
  "zeros8 = map (\<lambda>i. \<lparr>difference = 0, index = i\<rparr>) [0, 1, 2, 3, 0, 1, 2, 3]"

definition twelve :: "IntIndex list" where
  "twelve = map (\<lambda>i. \<lparr>difference = 0, index = i\<rparr>) [0, 1, 2, 3, 0, 1, 2, 3, 0, 1, 2]
            @ [\<lparr>difference = 10, index = 3\<rparr>]"

text \<open>
  The tree that the constructor returns for \<open>minSamples = 1\<close> and \<open>maxDepth = 0\<close>: one
  node of seven cells and one leaf. In the concrete trees a leaf is the number of patches
  it counts, 0 as constructed.
\<close>

definition tree_d0 :: "nat CRTree" where
  "tree_d0 = \<lparr>minSamples = 1, maxDepth = 0, numLeaves = 0, numNodes = 1,
              treetable = [Some 0, Some 0, Some 0, Some 0, Some 0, Some 0, Some 0],
              leaf = [0], theRNG = stream_of [], calls = []\<rparr>"

text \<open>
  Three patches with the differences 0, 0 and 10, whose labels lie on a line, so that
  the determinant of the covariance matrix of the labels is 0, for the three patches and
  for any vector made of them. \<open>zeros3\<close> and \<open>six\<close> are the entries of \<open>valSet\<close> after
  one and after two evaluations of them, the first with a test that compares a pixel with
  itself, the second with the test that compares the two pixels of a patch.
\<close>

definition three_patches :: "ImagePatch list" where
  "three_patches = [px2 0 0 0, px2 0 1 1, px2 10 2 2]"

definition three_draws :: RNG where
  "three_draws = stream_then [0, 0, 0, 0, 0, 0, 1, 0, 0] 5"

definition zeros3 :: "IntIndex list" where
  "zeros3 = map (\<lambda>i. \<lparr>difference = 0, index = i\<rparr>) [0, 1, 2]"

definition six :: "IntIndex list" where
  "six = map (\<lambda>i. \<lparr>difference = 0, index = i\<rparr>) [0, 1, 2, 0, 1]
         @ [\<lparr>difference = 10, index = 2\<rparr>]"

text \<open>Four patches whose labels have the covariance matrix 4 times the identity.\<close>

definition cluster :: "ImagePatch list" where
  "cluster = [px2 0 0 0, px2 0 4 0, px2 0 0 4, px2 0 4 4]"

subsection \<open>What the spec states, for comparison\<close>

text \<open>
  The spec's law for an accepted split: both parts are non-empty and every patch of the
  parent set is in exactly one of them, so that the two parts add up to the parent set
  as multisets.
\<close>

definition partition_law :: "ImagePatch list \<Rightarrow> ImagePatch list \<Rightarrow> ImagePatch list \<Rightarrow> bool" where
  "partition_law parent pA pB = (pA \<noteq> [] \<and> pB \<noteq> [] \<and> mset pA + mset pB = mset parent)"

text \<open>
  The spec's score: the weights are the ratios \<open>|partA| / |parent|\<close> and
  \<open>|partB| / |parent|\<close>, and the score is
  \<open>ln (det cov_parent) - w_A * ln (det cov_A) - w_B * ln (det cov_B)\<close>.
\<close>

definition spec_information_gain ::
  "ImagePatch list \<Rightarrow> ImagePatch list \<Rightarrow> ImagePatch list \<Rightarrow> double" where
  "spec_information_gain parent pA pB =
     dsub (dsub (lndet parent)
                (dmul (Fin (real (length pA) / real (length parent))) (lndet pA)))
          (dmul (Fin (real (length pB) / real (length parent))) (lndet pB))"

subsection \<open>The invariant of the split search\<close>

text \<open>
  \<open>covers dat xs\<close>: the vector \<open>xs\<close> is empty or holds every patch of \<open>dat\<close> at least
  as often as \<open>dat\<close> does. \<open>search_inv\<close> collects what holds of the locals of
  \<^verbatim>\<open>optimizeTest\<close> between any two steps: \<open>valSet\<close> is sorted, its indices lie in
  \<open>dat\<close>, and its entries, \<open>tmpA\<close>, \<open>tmpB\<close> and (once a candidate was taken) the two
  output vectors cover \<open>dat\<close> and hold patches of \<open>dat\<close> only. \<open>same_size w h dat\<close>: every
  patch of \<open>dat\<close> has \<open>w\<close> columns, \<open>h\<close> rows and \<open>h * w\<close> pixels.
\<close>

definition covers :: "ImagePatch list \<Rightarrow> ImagePatch list \<Rightarrow> bool" where
  "covers dat xs = (xs = [] \<or> mset dat \<subseteq># mset xs)"

definition search_inv :: "ImagePatch list \<Rightarrow> search \<Rightarrow> bool" where
  "search_inv dat s =
     (sorted (map difference (valSet s))
      \<and> list_all (\<lambda>v. index v < length dat) (valSet s)
      \<and> covers dat (map (\<lambda>v. dat ! index v) (valSet s))
      \<and> covers dat (tmpA s) \<and> covers dat (tmpB s)
      \<and> set (tmpA s) \<subseteq> set dat \<and> set (tmpB s) \<subseteq> set dat
      \<and> (\<not> ret s \<or> (mset dat \<subseteq># mset (partA s) \<and> mset dat \<subseteq># mset (partB s)
                      \<and> set (partA s) \<subseteq> set dat \<and> set (partB s) \<subseteq> set dat
                      \<and> length (test s) = 6)))"

definition same_size :: "nat \<Rightarrow> nat \<Rightarrow> ImagePatch list \<Rightarrow> bool" where
  "same_size w h dat =
     list_all (\<lambda>p. cols (patch p) = w \<and> rows (patch p) = h \<and> length (pixels (patch p)) = h * w) dat"

section \<open>Termination of grow\<close>

text \<open>
  A recursive call is made only after the seven cells of the node have been written, so
  the node lies inside the table, and the children have larger indices: the distance to
  the end of the table decreases. The second call starts from the state the first one
  returns, whose table has the same length.
\<close>

lemma makeLeaf_length:
  "makeLeaf dat node st = Inr st' \<Longrightarrow> length (treetable st') = length (treetable st)"
  by (auto simp: makeLeaf_def split: if_splits)

lemma write_cells_length:
  "write_cells i vs tt = Inr tt' \<Longrightarrow> length tt' = length tt"
  by (induction i vs tt rule: write_cells.induct) (auto split: if_splits)

lemma write_cells_first:
  "write_cells i (v # vs) tt = Inr tt' \<Longrightarrow> i < length tt"
  by (auto split: if_splits)

lemma grow_length:
  "grow_dom (N, dat, node, depth, samples, st0) \<Longrightarrow> grow N dat node depth samples st0 = Inr st'
     \<Longrightarrow> length (treetable st') = length (treetable st0)"
proof (induction N dat node depth samples st0 arbitrary: st' rule: grow.pinduct)
  case (1 N dat node depth samples st0)
  let ?st = "st0\<lparr>calls := calls st0 @ [(node, depth)]\<rparr>"
  show ?case
  proof (cases "depth < to_unsigned (maxDepth st0)")
    case True
    with "1.prems" "1.hyps" show ?thesis
      by (auto simp: grow.psimps Let_def dest!: makeLeaf_length)
  next
    case nd: False
    show ?thesis
    proof (cases "optimizeTest N [] [] dat samples indeterminate6 (theRNG st0)")
      case (Inl e)
      with nd "1.prems" "1.hyps" show ?thesis
        by (auto simp: grow.psimps Let_def)
    next
      case (Inr r)
      obtain found pA pB t g where r: "r = (found, pA, pB, t, g)"
        by (cases r) auto
      show ?thesis
      proof (cases found)
        case False
        with nd Inr r "1.prems" "1.hyps" show ?thesis
          by (auto simp: grow.psimps Let_def dest!: makeLeaf_length)
      next
        case True
        show ?thesis
        proof (cases "write_cells (node * 7) (Some (- 1) # t) (treetable st0)")
          case (Inl e)
          with nd Inr r True "1.prems" "1.hyps" show ?thesis
            by (auto simp: grow.psimps Let_def simp del: write_cells.simps)
        next
          case w: (Inr tt)
          then have ltt: "length tt = length (treetable st0)"
            by (rule write_cells_length)
          let ?s1 = "?st\<lparr>theRNG := g, treetable := tt\<rparr>"
          let ?first = "if enough pA (minSamples ?st)
                        then grow N pA (2 * node + 1) ((depth + 1) mod 2 ^ 32) samples ?s1
                        else makeLeaf pA (2 * node + 1) ?s1"
          have unf: "grow N dat node depth samples st0 =
                (case ?first of Inl e \<Rightarrow> Inl e
                 | Inr st2 \<Rightarrow> if enough pB (minSamples st2)
                     then grow N pB (2 * node + 2) ((depth + 1) mod 2 ^ 32) samples st2
                     else makeLeaf pB (2 * node + 2) st2)"
            using nd Inr r True w "1.hyps"
            by (simp add: grow.psimps Let_def del: write_cells.simps)
          from "1.prems" unf obtain st2 where f: "?first = Inr st2"
            by (cases ?first) auto
          have l2: "length (treetable st2) = length (treetable st0)"
          proof (cases "enough pA (minSamples ?st)")
            case e: True
            have "length (treetable st2) = length (treetable ?s1)"
              using "1.IH"(1)[of ?st "(found, pA, pB, t, g)" found "(pA, pB, t, g)" pA "(pB, t, g)" pB
                  "(t, g)" t g tt st2] nd e w f Inr r True
              by (simp del: write_cells.simps)
            then show ?thesis using ltt by simp
          next
            case False
            with f ltt show ?thesis by (auto dest!: makeLeaf_length)
          qed
          show ?thesis
          proof (cases "enough pB (minSamples st2)")
            case e: True
            have "length (treetable st') = length (treetable st2)"
              using "1.IH"(2)[of ?st "(found, pA, pB, t, g)" found "(pA, pB, t, g)" pA "(pB, t, g)" pB
                  "(t, g)" t g tt st2 st'] nd e w f Inr r True "1.prems" unf
              by (simp del: write_cells.simps)
            then show ?thesis using l2 by simp
          next
            case False
            with f l2 "1.prems" unf show ?thesis by (auto dest!: makeLeaf_length)
          qed
        qed
      qed
    qed
  qed
qed


termination grow
proof (relation "measure (\<lambda>(N, dat, node, depth, samples, st). length (treetable st) - 7 * node)",
    goal_cases)
  case 1
  show ?case by simp
next
  case (2 N dat node depth samples st0 x b xa y xb ya xc yb xd yc ba)
  then show ?case
    by (auto dest!: write_cells_length split: if_splits)
next
  case (3 N dat node depth samples st0 x b xa y xb ya xc yb xd yc ba bb)
  then have "length (treetable bb) = length (treetable st0)"
    by (auto dest!: write_cells_length makeLeaf_length grow_length split: if_splits)
  with 3 show ?case
    by (auto split: if_splits)
qed


declare threshold_loop.simps [simp del] outer_loop.simps [simp del] grow.simps [simp del]

section \<open>What the code does, for every input\<close>

subsection \<open>The search in split runs to one end\<close>

text \<open>
  When the elements that satisfy \<open>cmp val\<close> come first, the loop of \<^verbatim>\<open>upper_bound\<close>
  decides at its first probe: it returns the start of the range when the middle
  element satisfies \<open>cmp val\<close>, and the end otherwise. In a sequence sorted by the
  difference, the entries with \<open>difference < tr\<close> do come first. So \<open>split\<close> appends
  the patches of all entries to \<open>partB\<close> when the middle entry lies below the threshold,
  and to \<open>partA\<close> otherwise; it never divides them.
\<close>

lemma upper_bound_loop_downward:
  assumes down: "\<And>i j. i \<le> j \<Longrightarrow> j < length xs \<Longrightarrow> cmp val (xs ! j) \<Longrightarrow> cmp val (xs ! i)"
  shows "first + len \<le> length xs \<Longrightarrow>
   upper_bound_loop cmp xs val first len =
     (if 0 < len \<and> cmp val (xs ! (first + len div 2)) then first else first + len)"
proof (induction len arbitrary: first rule: less_induct)
  case (less len)
  show ?case
  proof (cases "0 < len")
    case False
    then show ?thesis by simp
  next
    case pos: True
    let ?half = "len div 2"
    let ?middle = "first + ?half"
    have mid: "?middle < length xs" using pos less.prems by simp
    show ?thesis
    proof (cases "cmp val (xs ! ?middle)")
      case left: True
      have "upper_bound_loop cmp xs val first len = upper_bound_loop cmp xs val first ?half"
        using pos left by (simp add: Let_def)
      also have "\<dots> = (if 0 < ?half \<and> cmp val (xs ! (first + ?half div 2))
                         then first else first + ?half)"
        using less.IH[of ?half first] pos less.prems by simp
      also have "\<dots> = first"
      proof (cases "0 < ?half")
        case True
        have "cmp val (xs ! (first + ?half div 2))"
          using down[of "first + ?half div 2" ?middle] mid left by simp
        then show ?thesis by simp
      next
        case False
        then show ?thesis by simp
      qed
      finally show ?thesis using pos left by simp
    next
      case right: False
      let ?rest = "len - ?half - 1"
      have "upper_bound_loop cmp xs val first len =
              upper_bound_loop cmp xs val (?middle + 1) ?rest"
        using pos right by (simp add: Let_def)
      also have "\<dots> = (if 0 < ?rest \<and> cmp val (xs ! (?middle + 1 + ?rest div 2))
                         then ?middle + 1 else ?middle + 1 + ?rest)"
        using less.IH[of ?rest "?middle + 1"] pos less.prems by simp
      also have "\<dots> = first + len"
      proof (cases "0 < ?rest")
        case True
        have "?middle + 1 + ?rest div 2 < length xs"
          using True less.prems by linarith
        then have "\<not> cmp val (xs ! (?middle + 1 + ?rest div 2))"
          using down[of ?middle "?middle + 1 + ?rest div 2"] right by auto
        then show ?thesis using pos by simp
      next
        case False
        then show ?thesis using pos by simp
      qed
      finally show ?thesis using pos right by simp
    qed
  qed
qed

lemma upper_bound_sorted:
  assumes "sorted (map difference vs)"
  shows "upper_bound vs tr split_comp =
     (if vs \<noteq> [] \<and> difference (vs ! (length vs div 2)) < tr then 0 else length vs)"
proof -
  have "\<And>i j. i \<le> j \<Longrightarrow> j < length vs \<Longrightarrow> split_comp tr (vs ! j) \<Longrightarrow> split_comp tr (vs ! i)"
  proof -
    fix i j assume ij: "i \<le> j" "j < length vs" and c: "split_comp tr (vs ! j)"
    from assms ij have "difference (vs ! i) \<le> difference (vs ! j)"
      by (simp add: sorted_iff_nth_mono)
    with c show "split_comp tr (vs ! i)" by (simp add: split_comp_def)
  qed
  from upper_bound_loop_downward[of vs split_comp tr 0 "length vs", OF this]
  show ?thesis by (simp add: upper_bound_def split_comp_def)
qed

lemma split_sorted:
  "sorted (map difference vs) \<Longrightarrow> list_all (\<lambda>v. index v < length dat) vs \<Longrightarrow>
   split dat tr vs pA pB =
     (if vs \<noteq> [] \<and> difference (vs ! (length vs div 2)) < tr
      then Inr (pA, pB @ map (\<lambda>v. dat ! index v) vs)
      else Inr (pA @ map (\<lambda>v. dat ! index v) vs, pB))"
  by (simp add: split_def upper_bound_sorted)

declare upper_bound_loop.simps [simp del]

lemma split_never_two_sided:
  assumes "sorted (map difference vs)" and "split dat tr vs [] [] = Inr (a, b)"
  shows "a = [] \<or> b = []"
proof (cases "list_all (\<lambda>v. index v < length dat) vs")
  case True
  from assms(2) show ?thesis
    by (auto simp: split_sorted[OF assms(1) True] split: if_splits)
next
  case False
  with assms(2) show ?thesis by (simp add: split_def Let_def)
qed

subsection \<open>evaluateTest appends\<close>

text \<open>
  \<^verbatim>\<open>evaluateTest\<close> returns the entries it was given together with one new entry per
  patch, with the indices \<open>0, 1, ...\<close>, sorted by the difference.
\<close>

lemma evaluate_loop_appends:
  "evaluate_loop dat x1 y1 x2 y2 i vs = Inr vs' \<Longrightarrow>
   \<exists>news. vs' = vs @ news \<and> map index news = [i..<i + length dat]"
proof (induction dat arbitrary: i vs)
  case Nil
  then show ?case by simp
next
  case (Cons p ps)
  from Cons.prems obtain m1 m2 :: "8 word" where
    rec: "evaluate_loop ps x1 y1 x2 y2 (Suc i) (vs @ [\<lparr>difference = uint m1 - uint m2, index = i\<rparr>]) = Inr vs'"
    by (auto split: sum.splits)
  from Cons.IH[OF rec] obtain news where
    n: "vs' = (vs @ [\<lparr>difference = uint m1 - uint m2, index = i\<rparr>]) @ news"
       "map index news = [Suc i..<Suc i + length ps]"
    by blast
  have "vs' = vs @ (\<lparr>difference = uint m1 - uint m2, index = i\<rparr> # news)"
    using n(1) by simp
  moreover have "map index (\<lparr>difference = uint m1 - uint m2, index = i\<rparr> # news) = [i..<i + length (p # ps)]"
    using n(2) by (simp del: upt_Suc add: upt_conv_Cons)
  ultimately show ?case by blast
qed

lemma evaluateTest_result:
  assumes "evaluateTest dat t vs = Inr vs'"
  shows "\<exists>news. mset vs' = mset vs + mset news \<and> map index news = [0..<length dat]
           \<and> sorted (map difference vs')"
proof -
  from assms obtain x1 y1 x2 y2 ws where
    l: "evaluate_loop dat x1 y1 x2 y2 0 vs = Inr ws" and v: "vs' = sort_key difference ws"
    by (auto simp: evaluateTest_def split: option.splits sum.splits)
  from evaluate_loop_appends[OF l] obtain news where
    "ws = vs @ news" "map index news = [0..<length dat]" by auto
  with v show ?thesis by (intro exI[of _ news]) simp
qed

lemma evaluateTest_length:
  "evaluateTest dat t vs = Inr vs' \<Longrightarrow> length vs' = length vs + length dat"
proof -
  assume "evaluateTest dat t vs = Inr vs'"
  from evaluateTest_result[OF this] obtain news where
    m: "mset vs' = mset vs + mset news" and i: "map index news = [0..<length dat]" by blast
  from i have "length news = length dat" by (metis length_map length_upt minus_nat.diff_0)
  moreover from m have "size (mset vs') = size (mset vs + mset news)" by simp
  ultimately show ?thesis by simp
qed

lemma evaluateTest_inv:
  assumes ev: "evaluateTest dat t vs = Inr vs'" and dat: "dat \<noteq> []"
    and ix: "list_all (\<lambda>v. index v < length dat) vs"
  shows "sorted (map difference vs')" "list_all (\<lambda>v. index v < length dat) vs'"
    "mset dat \<subseteq># mset (map (\<lambda>v. dat ! index v) vs')" "vs' \<noteq> []"
proof -
  from evaluateTest_result[OF ev] obtain news where
    m: "mset vs' = mset vs + mset news" and i: "map index news = [0..<length dat]"
    and s: "sorted (map difference vs')" by blast
  show "sorted (map difference vs')" by (rule s)
  have "set (map index news) = {0..<length dat}" using i by simp
  then have "\<forall>v\<in>set news. index v < length dat" by auto
  moreover have "set vs' = set vs \<union> set news"
    using m by (metis set_mset_mset set_mset_union)
  ultimately show "list_all (\<lambda>v. index v < length dat) vs'"
    using ix by (auto simp: list_all_iff)
  have "map (\<lambda>v. dat ! index v) news = map ((!) dat) (map index news)" by simp
  also have "\<dots> = dat" using i by (simp add: map_nth)
  finally have "map (\<lambda>v. dat ! index v) news = dat" .
  moreover have "mset (map (\<lambda>v. dat ! index v) vs') =
      mset (map (\<lambda>v. dat ! index v) vs) + mset (map (\<lambda>v. dat ! index v) news)"
    using m by (metis image_mset_union mset_map)
  ultimately show "mset dat \<subseteq># mset (map (\<lambda>v. dat ! index v) vs')" by simp
  from i have "length news = length dat"
    by (metis length_map length_upt minus_nat.diff_0)
  with dat have "news \<noteq> []" by auto
  with m show "vs' \<noteq> []" by auto
qed

subsection \<open>The loops of optimizeTest\<close>

text \<open>
  On a non-empty working set of patches of one size both loops run to their end without
  a fault and keep the invariant; the threshold loop does not touch \<open>valSet\<close>, the outer
  loop adds one entry per patch to it in each iteration; \<open>ret\<close>, once set, stays set. A
  successful search therefore returns two vectors that each hold every patch of the
  working set, and they never add up to the working set.
\<close>

lemma split_step:
  assumes inv: "search_inv dat s" and ne: "valSet s \<noteq> []"
  shows "\<exists>a b. split dat tr (valSet s) (tmpA s) (tmpB s) = Inr (a, b)
            \<and> covers dat a \<and> covers dat b \<and> set a \<subseteq> set dat \<and> set b \<subseteq> set dat
            \<and> (\<exists>xs. a = tmpA s @ xs) \<and> (\<exists>ys. b = tmpB s @ ys)"
proof -
  let ?all = "map (\<lambda>v. dat ! index v) (valSet s)"
  from inv have srt: "sorted (map difference (valSet s))"
    and ix: "list_all (\<lambda>v. index v < length dat) (valSet s)"
    and ca: "covers dat (tmpA s)" and cb: "covers dat (tmpB s)" and cv: "covers dat ?all"
    and sa: "set (tmpA s) \<subseteq> set dat" and sb: "set (tmpB s) \<subseteq> set dat"
    by (simp_all add: search_inv_def)
  from cv ne have sub: "mset dat \<subseteq># mset ?all" by (simp add: covers_def)
  have c: "covers dat (tmpA s @ ?all)" "covers dat (tmpB s @ ?all)"
    using sub by (simp_all add: covers_def subset_mset.add_increasing)
  have "set ?all \<subseteq> set dat" using ix by (auto simp: list_all_iff)
  with sa sb have w: "set (tmpA s @ ?all) \<subseteq> set dat" "set (tmpB s @ ?all) \<subseteq> set dat"
    by simp_all
  show ?thesis
    using ca cb c sa sb w by (simp add: split_sorted[OF srt ix])
qed

lemma measureInformationGain_total:
  "dat \<noteq> [] \<Longrightarrow> \<exists>score. measureInformationGain dat a b = Inr score"
  by (simp add: measureInformationGain_def weight_def)

lemma threshold_loop_run:
  assumes dat: "dat \<noteq> []" and len: "length tmpTest = 6"
  shows "search_inv dat s \<Longrightarrow> valSet s \<noteq> [] \<Longrightarrow>
   \<exists>s'. threshold_loop dat tmpTest vmin vmax N j s = Inr s' \<and> search_inv dat s'
        \<and> valSet s' = valSet s \<and> (ret s \<longrightarrow> ret s')
        \<and> (\<exists>xs. tmpA s' = tmpA s @ xs) \<and> (\<exists>ys. tmpB s' = tmpB s @ ys)"
proof (induction "N - j" arbitrary: j s)
  case 0
  then show ?case by (simp add: threshold_loop.simps)
next
  case (Suc k)
  then have jN: "j < N" by simp
  have IH: "\<And>S. search_inv dat S \<Longrightarrow> valSet S \<noteq> [] \<Longrightarrow>
      \<exists>s'. threshold_loop dat tmpTest vmin vmax N (j + 1) S = Inr s' \<and> search_inv dat s'
        \<and> valSet s' = valSet S \<and> (ret S \<longrightarrow> ret s')
        \<and> (\<exists>xs. tmpA s' = tmpA S @ xs) \<and> (\<exists>ys. tmpB s' = tmpB S @ ys)"
    using Suc.hyps(1)[of "j + 1"] Suc.hyps(2) by simp
  obtain tr g where u: "uniform vmin vmax (rng s) = (tr, g)"
    by (cases "uniform vmin vmax (rng s)")
  from split_step[OF Suc.prems(1,2), of tr] obtain a b xs ys where
    sp: "split dat tr (valSet s) (tmpA s) (tmpB s) = Inr (a, b)"
    and ca: "covers dat a" and cb: "covers dat b"
    and sa: "set a \<subseteq> set dat" and sb: "set b \<subseteq> set dat"
    and ea: "a = tmpA s @ xs" and eb: "b = tmpB s @ ys" by blast
  obtain score where sc: "measureInformationGain dat a b = Inr score"
    using measureInformationGain_total[OF dat] by blast
  let ?s1 = "s\<lparr>tmpA := a, tmpB := b, rng := g\<rparr>"
  let ?s2 = "?s1\<lparr>ret := True, bestSplit := score, test := tmpTest[5 := Some tr],
                partA := a, partB := b\<rparr>"
  have inv1: "search_inv dat ?s1" and ne1: "valSet ?s1 \<noteq> []"
    using Suc.prems(1,2) ca cb sa sb by (simp_all add: search_inv_def)
  have step: "threshold_loop dat tmpTest vmin vmax N j s =
      (if 0 < length a \<and> 0 < length b \<and> dgt score (bestSplit s)
       then threshold_loop dat tmpTest vmin vmax N (j + 1) ?s2
       else threshold_loop dat tmpTest vmin vmax N (j + 1) ?s1)"
    using jN u sp sc by (subst threshold_loop.simps) (simp add: Let_def)
  show ?case
  proof (cases "0 < length a \<and> 0 < length b \<and> dgt score (bestSplit s)")
    case False
    from IH[OF inv1 ne1] obtain s' where
      "threshold_loop dat tmpTest vmin vmax N (j + 1) ?s1 = Inr s'" "search_inv dat s'"
      "valSet s' = valSet ?s1" "ret ?s1 \<longrightarrow> ret s'"
      "\<exists>xs. tmpA s' = tmpA ?s1 @ xs" "\<exists>ys. tmpB s' = tmpB ?s1 @ ys" by blast
    with False step ea eb show ?thesis by auto
  next
    case True
    then have "mset dat \<subseteq># mset a" "mset dat \<subseteq># mset b"
      using ca cb by (auto simp: covers_def)
    with inv1 sa sb len have inv2: "search_inv dat ?s2" by (simp add: search_inv_def)
    have ne2: "valSet ?s2 \<noteq> []" using ne1 by simp
    from IH[OF inv2 ne2] obtain s' where
      "threshold_loop dat tmpTest vmin vmax N (j + 1) ?s2 = Inr s'" "search_inv dat s'"
      "valSet s' = valSet ?s2" "ret ?s2 \<longrightarrow> ret s'"
      "\<exists>xs. tmpA s' = tmpA ?s2 @ xs" "\<exists>ys. tmpB s' = tmpB ?s2 @ ys" by blast
    with True step ea eb show ?thesis by auto
  qed
qed


lemma generateTest_length: "length (fst (generateTest t w h g)) = length t"
  by (simp add: generateTest_def Let_def split: prod.splits)

lemma uniform_range:
  assumes "0 < b" and "b < 2 ^ 31"
  shows "0 \<le> fst (uniform 0 b g) \<and> fst (uniform 0 b g) < b"
proof -
  let ?r = "fst (next_raw g) mod nat b"
  have ub: "to_unsigned b = nat b" using assms by (simp add: to_unsigned_def)
  have lt: "?r < nat b" using assms by simp
  have "nat b < 2 ^ 31" using assms by (simp add: nat_less_iff)
  with lt have small: "?r < 2 ^ 31" by linarith
  then have "?r mod 2 ^ 32 = ?r" by simp
  with small have "to_int ?r = int ?r" by (simp add: to_int_def)
  moreover from lt assms have "int ?r < b" by linarith
  ultimately show ?thesis using assms by (simp add: uniform_def ub to_unsigned_def)
qed

lemma generateTest_cells:
  assumes "0 < w" "w < 2 ^ 31" "0 < h" "h < 2 ^ 31"
  shows "\<exists>x1 y1 x2 y2. fst (generateTest indeterminate6 w h g) = [Some x1, Some y1, Some x2, Some y2, None, None]
           \<and> 0 \<le> x1 \<and> x1 < int w \<and> 0 \<le> y1 \<and> y1 < int h
           \<and> 0 \<le> x2 \<and> x2 < int w \<and> 0 \<le> y2 \<and> y2 < int h"
proof -
  have W: "\<And>g. 0 \<le> fst (uniform 0 (int w) g) \<and> fst (uniform 0 (int w) g) < int w"
    using assms by (intro uniform_range) simp_all
  have H: "\<And>g. 0 \<le> fst (uniform 0 (int h) g) \<and> fst (uniform 0 (int h) g) < int h"
    using assms by (intro uniform_range) simp_all
  show ?thesis
    using W H by (simp add: generateTest_def indeterminate6_def Let_def split: prod.splits)
       (metis fst_conv)
qed

lemma cell_in_grid:
  fixes x y w h :: nat
  assumes "x < w" "y < h"
  shows "y * w + x < h * w"
proof -
  have "y * w + x < y * w + w" using assms by simp
  also have "\<dots> = Suc y * w" by simp
  also have "\<dots> \<le> h * w" using assms by (intro mult_le_mono1) simp
  finally show ?thesis .
qed

lemma at_uchar_total:
  assumes "cols m = w" "rows m = h" "length (pixels m) = h * w"
    and "0 \<le> x" "x < int w" "0 \<le> y" "y < int h"
  shows "\<exists>v. at_uchar m y x = Inr v"
proof -
  have "nat y * w + nat x < h * w"
    using assms by (intro cell_in_grid) simp_all
  with assms show ?thesis by (simp add: at_uchar_def)
qed

lemma evaluate_loop_total:
  assumes "0 \<le> x1" "x1 < int w" "0 \<le> y1" "y1 < int h" "0 \<le> x2" "x2 < int w" "0 \<le> y2" "y2 < int h"
  shows "same_size w h dat \<Longrightarrow> \<exists>vs'. evaluate_loop dat x1 y1 x2 y2 i vs = Inr vs'"
proof (induction dat arbitrary: i vs)
  case Nil
  then show ?case by simp
next
  case (Cons p ps)
  then have p: "cols (patch p) = w" "rows (patch p) = h" "length (pixels (patch p)) = h * w"
    and ps: "same_size w h ps" by (simp_all add: same_size_def)
  from at_uchar_total[OF p assms(1-4)] obtain m1 where m1: "at_uchar (patch p) y1 x1 = Inr m1" ..
  from at_uchar_total[OF p assms(5-8)] obtain m2 where m2: "at_uchar (patch p) y2 x2 = Inr m2" ..
  from Cons.IH[OF ps] m1 m2 show ?case by simp
qed

lemma evaluateTest_total:
  assumes "0 < w" "w < 2 ^ 31" "0 < h" "h < 2 ^ 31" "same_size w h dat"
  shows "\<exists>vs'. evaluateTest dat (fst (generateTest indeterminate6 w h g)) vs = Inr vs'"
proof -
  from generateTest_cells[OF assms(1-4), of g] obtain x1 y1 x2 y2 where
    t: "fst (generateTest indeterminate6 w h g) = [Some x1, Some y1, Some x2, Some y2, None, None]"
    and r: "0 \<le> x1" "x1 < int w" "0 \<le> y1" "y1 < int h" "0 \<le> x2" "x2 < int w" "0 \<le> y2" "y2 < int h"
    by blast
  from evaluate_loop_total[OF r assms(5), of 0 vs] obtain ws where
    "evaluate_loop dat x1 y1 x2 y2 0 vs = Inr ws" ..
  then show ?thesis by (simp add: evaluateTest_def t)
qed


lemma outer_loop_step:
  assumes lt: "i < iter" and gt: "generateTest indeterminate6 w h (rng s) = (tmpTest, g)"
  shows "outer_loop dat w h N iter i s =
      (case evaluateTest dat tmpTest (valSet s) of
         Inl e \<Rightarrow> Inl e
       | Inr vs \<Rightarrow>
           if vs = [] then Inl VectorIndex
           else if 0 < difference (last vs) - difference (hd vs)
                then (case threshold_loop dat tmpTest (difference (hd vs)) (difference (last vs)) N 0
                             (s\<lparr>valSet := vs, rng := g\<rparr>) of
                        Inl e \<Rightarrow> Inl e
                      | Inr s2 \<Rightarrow> outer_loop dat w h N iter (i + 1) s2)
                else outer_loop dat w h N iter (i + 1) (s\<lparr>valSet := vs, rng := g\<rparr>))"
  using lt gt by (subst outer_loop.simps) (simp add: Let_def cong: sum.case_cong if_cong)

lemma outer_loop_inv:
  assumes dat: "dat \<noteq> []"
  shows "search_inv dat s \<Longrightarrow> outer_loop dat w h N iter i s = Inr s' \<Longrightarrow>
     search_inv dat s' \<and> (ret s \<longrightarrow> ret s')
     \<and> (\<exists>xs. tmpA s' = tmpA s @ xs) \<and> (\<exists>ys. tmpB s' = tmpB s @ ys)"
proof (induction "iter - i" arbitrary: i s)
  case 0
  then show ?case by (simp add: outer_loop.simps)
next
  case (Suc k)
  then have lt: "i < iter" by simp
  have IH: "\<And>S. search_inv dat S \<Longrightarrow> outer_loop dat w h N iter (i + 1) S = Inr s' \<Longrightarrow>
      search_inv dat s' \<and> (ret S \<longrightarrow> ret s')
      \<and> (\<exists>xs. tmpA s' = tmpA S @ xs) \<and> (\<exists>ys. tmpB s' = tmpB S @ ys)"
    using Suc.hyps(1)[of "i + 1"] Suc.hyps(2) by simp
  obtain tmpTest g where gt: "generateTest indeterminate6 w h (rng s) = (tmpTest, g)"
    by (cases "generateTest indeterminate6 w h (rng s)")
  have len: "length tmpTest = 6"
    using generateTest_length[of indeterminate6 w h "rng s"] gt by (simp add: indeterminate6_def)
  note step = outer_loop_step[OF lt gt, of dat N]
  from Suc.prems(2) obtain vs where ev: "evaluateTest dat tmpTest (valSet s) = Inr vs"
    unfolding step by (cases "evaluateTest dat tmpTest (valSet s)") auto
  from Suc.prems(1) have "list_all (\<lambda>v. index v < length dat) (valSet s)"
    by (simp add: search_inv_def)
  note e = evaluateTest_inv[OF ev dat this]
  let ?s1 = "s\<lparr>valSet := vs, rng := g\<rparr>"
  have inv1: "search_inv dat ?s1"
    using Suc.prems(1) e by (simp add: search_inv_def covers_def)
  show ?case
  proof (cases "0 < difference (last vs) - difference (hd vs)")
    case False
    with Suc.prems(2) ev e(4) have "outer_loop dat w h N iter (i + 1) ?s1 = Inr s'"
      unfolding step by simp
    from IH[OF inv1 this] show ?thesis by simp
  next
    case True
    have ne1: "valSet ?s1 \<noteq> []" using e(4) by simp
    from threshold_loop_run[OF dat len inv1 ne1] obtain s2 where
      th: "threshold_loop dat tmpTest (difference (hd vs)) (difference (last vs)) N 0 ?s1 = Inr s2"
      and inv2: "search_inv dat s2" and r2: "ret ?s1 \<longrightarrow> ret s2"
      and p2: "\<exists>xs. tmpA s2 = tmpA ?s1 @ xs" "\<exists>ys. tmpB s2 = tmpB ?s1 @ ys"
      by blast
    from True Suc.prems(2) ev e(4) th have "outer_loop dat w h N iter (i + 1) s2 = Inr s'"
      unfolding step by simp
    from IH[OF inv2 this] r2 p2 show ?thesis by auto
  qed
qed

lemma outer_loop_total:
  assumes dat: "dat \<noteq> []" and dims: "0 < w" "w < 2 ^ 31" "0 < h" "h < 2 ^ 31"
    and same: "same_size w h dat"
  shows "search_inv dat s \<Longrightarrow> \<exists>s'. outer_loop dat w h N iter i s = Inr s'"
proof (induction "iter - i" arbitrary: i s)
  case 0
  then show ?case by (simp add: outer_loop.simps)
next
  case (Suc k)
  then have lt: "i < iter" by simp
  have IH: "\<And>S. search_inv dat S \<Longrightarrow> \<exists>s'. outer_loop dat w h N iter (i + 1) S = Inr s'"
    using Suc.hyps(1)[of "i + 1"] Suc.hyps(2) by simp
  obtain tmpTest g where gt: "generateTest indeterminate6 w h (rng s) = (tmpTest, g)"
    by (cases "generateTest indeterminate6 w h (rng s)")
  have len: "length tmpTest = 6"
    using generateTest_length[of indeterminate6 w h "rng s"] gt by (simp add: indeterminate6_def)
  note step = outer_loop_step[OF lt gt, of dat N]
  from evaluateTest_total[OF dims same, of "rng s" "valSet s"] gt
  obtain vs where ev: "evaluateTest dat tmpTest (valSet s) = Inr vs" by auto
  from Suc.prems(1) have "list_all (\<lambda>v. index v < length dat) (valSet s)"
    by (simp add: search_inv_def)
  note e = evaluateTest_inv[OF ev dat this]
  let ?s1 = "s\<lparr>valSet := vs, rng := g\<rparr>"
  have inv1: "search_inv dat ?s1"
    using Suc.prems(1) e by (simp add: search_inv_def covers_def)
  show ?case
  proof (cases "0 < difference (last vs) - difference (hd vs)")
    case False
    with IH[OF inv1] ev e(4) show ?thesis unfolding step by simp
  next
    case True
    have ne1: "valSet ?s1 \<noteq> []" using e(4) by simp
    from threshold_loop_run[OF dat len inv1 ne1] obtain s2 where
      th: "threshold_loop dat tmpTest (difference (hd vs)) (difference (last vs)) N 0 ?s1 = Inr s2"
      and inv2: "search_inv dat s2" by blast
    with IH[OF inv2] True ev e(4) show ?thesis unfolding step by simp
  qed
qed

lemma search_init_inv: "search_inv dat (search_init t pA pB g)"
  by (simp add: search_inv_def search_init_def covers_def)

lemma optimizeTest_success_covers:
  assumes "optimizeTest N pA pB dat iter t g = Inr (True, pA', pB', t', g')"
  shows "dat \<noteq> [] \<and> mset dat \<subseteq># mset pA' \<and> mset dat \<subseteq># mset pB'
         \<and> set pA' \<subseteq> set dat \<and> set pB' \<subseteq> set dat \<and> length t' = 6"
proof -
  from assms have dat: "dat \<noteq> []"
    by (auto simp: optimizeTest_def split: if_splits)
  with assms obtain s where
    run: "outer_loop dat (cols (patch (dat ! 0))) (rows (patch (dat ! 0))) N iter 0
            (search_init t pA pB g) = Inr s"
    and res: "ret s" "partA s = pA'" "partB s = pB'" "test s = t'"
    by (auto simp: optimizeTest_def Let_def split: sum.splits)
  from outer_loop_inv[OF dat search_init_inv run] res dat show ?thesis
    by (simp add: search_inv_def)
qed

lemma optimizeTest_success_no_partition:
  assumes "optimizeTest N pA pB dat iter t g = Inr (True, pA', pB', t', g')"
  shows "\<not> partition_law dat pA' pB'"
proof
  assume "partition_law dat pA' pB'"
  then have "size (mset pA' + mset pB') = size (mset dat)"
    by (simp add: partition_law_def)
  moreover from optimizeTest_success_covers[OF assms]
  have c: "dat \<noteq> []" "mset dat \<subseteq># mset pA'" "mset dat \<subseteq># mset pB'"
    by simp_all
  moreover have "size (mset dat) \<le> size (mset pA')"
    using c(2) by (rule size_mset_mono)
  moreover have "size (mset dat) \<le> size (mset pB')"
    using c(3) by (rule size_mset_mono)
  moreover have "0 < length dat" using c(1) by simp
  ultimately show False by simp
qed

lemma optimizeTest_total:
  assumes dat: "dat \<noteq> []"
    and dims: "0 < cols (patch (dat ! 0))" "cols (patch (dat ! 0)) < 2 ^ 31"
              "0 < rows (patch (dat ! 0))" "rows (patch (dat ! 0)) < 2 ^ 31"
    and same: "same_size (cols (patch (dat ! 0))) (rows (patch (dat ! 0))) dat"
  shows "\<exists>found pA' pB' t' g'. optimizeTest N pA pB dat iter t g = Inr (found, pA', pB', t', g')"
proof -
  from outer_loop_total[OF dat dims same search_init_inv, of N iter 0 t pA pB g]
  obtain s where "outer_loop dat (cols (patch (dat ! 0))) (rows (patch (dat ! 0))) N iter 0
      (search_init t pA pB g) = Inr s" ..
  with dat show ?thesis by (simp add: optimizeTest_def Let_def)
qed

lemma threshold_loop_valSet:
  "threshold_loop dat tmpTest vmin vmax N j s = Inr s' \<Longrightarrow> valSet s' = valSet s"
proof (induction "N - j" arbitrary: j s)
  case 0
  then show ?case by (simp add: threshold_loop.simps)
next
  case (Suc k)
  then have jN: "j < N" by simp
  have IH: "\<And>S. threshold_loop dat tmpTest vmin vmax N (Suc j) S = Inr s' \<Longrightarrow>
      valSet s' = valSet S"
    using Suc.hyps(1)[of "Suc j"] Suc.hyps(2) by simp
  from Suc.prems jN show ?case
    by (subst (asm) threshold_loop.simps)
       (auto simp: Let_def split: prod.splits sum.splits if_splits dest!: IH)
qed

lemma outer_loop_valSet_length:
  "outer_loop dat w h N iter i s = Inr s' \<Longrightarrow>
   length (valSet s') = length (valSet s) + (iter - i) * length dat"
proof (induction "iter - i" arbitrary: i s)
  case 0
  then show ?case by (simp add: outer_loop.simps)
next
  case (Suc k)
  then have lt: "i < iter" by simp
  have k: "iter - i = Suc (iter - Suc i)" using lt by simp
  have IH: "\<And>S. outer_loop dat w h N iter (Suc i) S = Inr s' \<Longrightarrow>
      length (valSet s') = length (valSet S) + (iter - Suc i) * length dat"
    using Suc.hyps(1)[of "Suc i"] Suc.hyps(2) by simp
  from Suc.prems lt show ?case
    unfolding k
    by (subst (asm) outer_loop.simps)
       (auto simp: Let_def split: prod.splits sum.splits if_splits
          dest!: IH threshold_loop_valSet evaluateTest_length)
qed

subsection \<open>A loop run in two parts\<close>

text \<open>
  The first \<open>M\<close> iterations of either loop, followed by the remaining ones, are the
  loop.
\<close>

lemma threshold_loop_split:
  "j \<le> M \<Longrightarrow> M \<le> N \<Longrightarrow>
   threshold_loop dat t a b N j s =
     (case threshold_loop dat t a b M j s of
        Inl e \<Rightarrow> Inl e
      | Inr s1 \<Rightarrow> threshold_loop dat t a b N M s1)"
proof (induction "M - j" arbitrary: j s)
  case 0
  then have "j = M" by simp
  then show ?case by (simp add: threshold_loop.simps[of _ _ _ _ M M])
next
  case (Suc k)
  then have lt: "j < M" "j < N" by simp_all
  have IH: "\<And>S. threshold_loop dat t a b N (Suc j) S =
     (case threshold_loop dat t a b M (Suc j) S of
        Inl e \<Rightarrow> Inl e
      | Inr s1 \<Rightarrow> threshold_loop dat t a b N M s1)"
    using Suc.hyps(1)[of "Suc j"] Suc.hyps(2) Suc.prems by simp
  show ?case
    apply (subst threshold_loop.simps[of _ _ _ _ N j])
    apply (subst threshold_loop.simps[of _ _ _ _ M j])
    using lt
    apply (simp add: Let_def IH split: prod.splits sum.splits)
    done
qed

lemma outer_loop_split:
  "i \<le> M \<Longrightarrow> M \<le> iter \<Longrightarrow>
   outer_loop dat w h N iter i s =
     (case outer_loop dat w h N M i s of
        Inl e \<Rightarrow> Inl e
      | Inr s1 \<Rightarrow> outer_loop dat w h N iter M s1)"
proof (induction "M - i" arbitrary: i s)
  case 0
  then have "i = M" by simp
  then show ?case by (simp add: outer_loop.simps[of _ _ _ _ M M])
next
  case (Suc k)
  then have lt: "i < M" "i < iter" by simp_all
  have IH: "\<And>S. outer_loop dat w h N iter (Suc i) S =
     (case outer_loop dat w h N M (Suc i) S of
        Inl e \<Rightarrow> Inl e
      | Inr s1 \<Rightarrow> outer_loop dat w h N iter M s1)"
    using Suc.hyps(1)[of "Suc i"] Suc.hyps(2) Suc.prems by simp
  show ?case
    apply (subst outer_loop.simps[of _ _ _ _ iter i])
    apply (subst outer_loop.simps[of _ _ _ _ M i])
    using lt
    apply (simp add: Let_def IH split: prod.splits sum.splits)
    done
qed

subsection \<open>Labels on a line\<close>

text \<open>
  When pitch and yaw agree on every patch of the working set, the covariance matrix of
  any vector of such patches is singular, every logarithm of a determinant is minus infinity
  and every score is a NaN: no candidate is ever taken, and the search leaves \<open>ret\<close>,
  the output vectors and the output test as they were.
\<close>

lemma lndet_diagonal:
  assumes "xs \<noteq> []" "\<forall>p\<in>set xs. pitch p = yaw p"
  shows "lndet xs = NegInf"
proof -
  from assms(2) have eq: "map pitch xs = map yaw xs" by simp
  have "determinant xs = 0" unfolding determinant_def eq by simp
  with assms(1) show ?thesis by (simp add: lndet_def)
qed

lemma score_diagonal:
  assumes dat: "dat \<noteq> []" "\<forall>p\<in>set dat. pitch p = yaw p"
    and a: "a \<noteq> []" "set a \<subseteq> set dat" and b: "b \<noteq> []" "set b \<subseteq> set dat"
  shows "measureInformationGain dat a b = Inr NaN"
proof -
  from dat have P: "lndet dat = NegInf" by (rule lndet_diagonal)
  from a dat(2) have A: "lndet a = NegInf" by (intro lndet_diagonal) auto
  from b dat(2) have B: "lndet b = NegInf" by (intro lndet_diagonal) auto
  have m: "\<And>n::nat. dmul (Fin (real n)) NegInf = NaN \<or> dmul (Fin (real n)) NegInf = NegInf"
    by simp
  have "dsub (dsub NegInf (dmul (Fin (real (length b div length dat))) NegInf))
             (dmul (Fin (real (length a div length dat))) NegInf) = NaN"
    using m[of "length b div length dat"] m[of "length a div length dat"]
    by (cases "length b div length dat = 0"; cases "length a div length dat = 0") simp_all
  with dat(1) show ?thesis
    by (simp add: measureInformationGain_def weight_def P A B)
qed

lemma threshold_loop_unscored:
  assumes dat: "dat \<noteq> []" "\<forall>p\<in>set dat. pitch p = yaw p"
  shows "search_inv dat s \<Longrightarrow> valSet s \<noteq> [] \<Longrightarrow>
   threshold_loop dat tmpTest vmin vmax N j s = Inr s' \<Longrightarrow>
   search_inv dat s' \<and> valSet s' = valSet s
   \<and> ret s' = ret s \<and> partA s' = partA s \<and> partB s' = partB s \<and> test s' = test s"
proof (induction "N - j" arbitrary: j s)
  case 0
  then show ?case by (simp add: threshold_loop.simps)
next
  case (Suc k)
  then have jN: "j < N" by simp
  obtain tr g where u: "uniform vmin vmax (rng s) = (tr, g)"
    by (cases "uniform vmin vmax (rng s)")
  from split_step[OF Suc.prems(1,2), of tr] obtain a b where
    sp: "split dat tr (valSet s) (tmpA s) (tmpB s) = Inr (a, b)"
    and ca: "covers dat a" and cb: "covers dat b"
    and sa: "set a \<subseteq> set dat" and sb: "set b \<subseteq> set dat" by blast
  let ?s1 = "s\<lparr>tmpA := a, tmpB := b, rng := g\<rparr>"
  have inv1: "search_inv dat ?s1" and ne1: "valSet ?s1 \<noteq> []"
    using Suc.prems(1,2) ca cb sa sb by (simp_all add: search_inv_def)
  have step: "threshold_loop dat tmpTest vmin vmax N j s =
      threshold_loop dat tmpTest vmin vmax N (j + 1) ?s1"
  proof (cases "a \<noteq> [] \<and> b \<noteq> []")
    case True
    with score_diagonal[OF dat _ sa _ sb] have "measureInformationGain dat a b = Inr NaN"
      by simp
    with jN u sp show ?thesis by (subst threshold_loop.simps) (simp add: Let_def)
  next
    case False
    with jN u sp show ?thesis by (subst threshold_loop.simps) (auto simp: Let_def)
  qed
  from Suc.hyps(1)[of "j + 1" ?s1] Suc.hyps(2) inv1 ne1 Suc.prems(3) step
  show ?case by simp
qed

lemma outer_loop_unscored:
  assumes dat: "dat \<noteq> []" "\<forall>p\<in>set dat. pitch p = yaw p"
  shows "search_inv dat s \<Longrightarrow> outer_loop dat w h N iter i s = Inr s' \<Longrightarrow>
     ret s' = ret s \<and> partA s' = partA s \<and> partB s' = partB s \<and> test s' = test s"
proof (induction "iter - i" arbitrary: i s)
  case 0
  then show ?case by (simp add: outer_loop.simps)
next
  case (Suc k)
  then have lt: "i < iter" by simp
  have IH: "\<And>S. search_inv dat S \<Longrightarrow> outer_loop dat w h N iter (i + 1) S = Inr s' \<Longrightarrow>
      ret s' = ret S \<and> partA s' = partA S \<and> partB s' = partB S \<and> test s' = test S"
    using Suc.hyps(1)[of "i + 1"] Suc.hyps(2) by simp
  obtain tmpTest g where gt: "generateTest indeterminate6 w h (rng s) = (tmpTest, g)"
    by (cases "generateTest indeterminate6 w h (rng s)")
  note step = outer_loop_step[OF lt gt, of dat N]
  from Suc.prems(2) obtain vs where ev: "evaluateTest dat tmpTest (valSet s) = Inr vs"
    unfolding step by (cases "evaluateTest dat tmpTest (valSet s)") auto
  from Suc.prems(1) have "list_all (\<lambda>v. index v < length dat) (valSet s)"
    by (simp add: search_inv_def)
  note e = evaluateTest_inv[OF ev dat(1) this]
  let ?s1 = "s\<lparr>valSet := vs, rng := g\<rparr>"
  have inv1: "search_inv dat ?s1"
    using Suc.prems(1) e by (simp add: search_inv_def covers_def)
  show ?case
  proof (cases "0 < difference (last vs) - difference (hd vs)")
    case False
    with Suc.prems(2) ev e(4) have "outer_loop dat w h N iter (i + 1) ?s1 = Inr s'"
      unfolding step by simp
    from IH[OF inv1 this] show ?thesis by simp
  next
    case True
    have ne1: "valSet ?s1 \<noteq> []" using e(4) by simp
    from True Suc.prems(2) ev e(4) obtain s2 where
      th: "threshold_loop dat tmpTest (difference (hd vs)) (difference (last vs)) N 0 ?s1 = Inr s2"
      and rest: "outer_loop dat w h N iter (i + 1) s2 = Inr s'"
      unfolding step
      by (cases "threshold_loop dat tmpTest (difference (hd vs)) (difference (last vs)) N 0 ?s1")
         auto
    from threshold_loop_unscored[OF dat inv1 ne1 th] IH[OF _ rest] show ?thesis by simp
  qed
qed

subsection \<open>grow, makeLeaf and the weights\<close>

text \<open>
  \<open>grow\<close> makes a leaf, without any search, exactly when the depth is below
  \<open>maxDepth\<close>; a call of \<open>grow\<close> for a node outside the table, on a non-empty working
  set of patches of one size, ends in a write outside the table whatever the depth is;
  \<open>makeLeaf\<close> never changes the leaf array; a part smaller than its parent has the
  weight 0.
\<close>

lemma grow_shallow:
  "depth < to_unsigned (maxDepth st) \<Longrightarrow>
   grow N dat node depth samples st = makeLeaf dat node (st\<lparr>calls := calls st @ [(node, depth)]\<rparr>)"
  by (simp add: grow.simps)

lemma write_cells_inside:
  "i + length vs \<le> length tt \<Longrightarrow>
   \<exists>tt'. write_cells i vs tt = Inr tt' \<and> length tt' = length tt \<and> (\<forall>k<i. tt' ! k = tt ! k)"
proof (induction i vs tt rule: write_cells.induct)
  case (1 i tt)
  then show ?case by simp
next
  case (2 i v vs tt)
  then have lt: "i < length tt" by simp
  from 2 lt obtain tt' where
    w: "write_cells (Suc i) vs (tt[i := v]) = Inr tt'" and l: "length tt' = length tt"
    and k: "\<forall>k<Suc i. tt' ! k = tt[i := v] ! k"
    by auto
  from k have "\<forall>k<i. tt' ! k = tt ! k" by simp
  with w l lt show ?case by simp
qed

lemma write_cells_node:
  assumes "node * 7 + 7 \<le> length tt" "length t = 6"
  shows "\<exists>tt'. write_cells (node * 7) (v # t) tt = Inr tt' \<and> length tt' = length tt
           \<and> tt' ! (node * 7) = v"
proof -
  from assms have lt: "node * 7 < length tt" by simp
  from assms write_cells_inside[of "Suc (node * 7)" t "tt[node * 7 := v]"] obtain tt' where
    "write_cells (Suc (node * 7)) t (tt[node * 7 := v]) = Inr tt'" "length tt' = length tt"
    "\<forall>k<Suc (node * 7). tt' ! k = tt[node * 7 := v] ! k"
    by auto
  with lt show ?thesis by simp
qed

lemma grow_outside:
  assumes out: "length (treetable st) \<le> node * 7"
    and dat: "dat \<noteq> []"
    and dims: "0 < cols (patch (dat ! 0))" "cols (patch (dat ! 0)) < 2 ^ 31"
              "0 < rows (patch (dat ! 0))" "rows (patch (dat ! 0)) < 2 ^ 31"
    and same: "same_size (cols (patch (dat ! 0))) (rows (patch (dat ! 0))) dat"
  shows "\<exists>g. grow N dat node depth samples st =
           Inl (TableIndex (node * 7), st\<lparr>calls := calls st @ [(node, depth)], theRNG := g\<rparr>)"
proof (cases "depth < to_unsigned (maxDepth st)")
  case True
  with out have "grow N dat node depth samples st =
      Inl (TableIndex (node * 7), st\<lparr>calls := calls st @ [(node, depth)], theRNG := theRNG st\<rparr>)"
    by (simp add: grow.simps Let_def makeLeaf_def)
  then show ?thesis by blast
next
  case False
  from optimizeTest_total[OF dat dims same, of N "[]" "[]" samples indeterminate6 "theRNG st"]
  obtain found pA pB t g where
    opt: "optimizeTest N [] [] dat samples indeterminate6 (theRNG st) = Inr (found, pA, pB, t, g)"
    by blast
  have "grow N dat node depth samples st =
      Inl (TableIndex (node * 7), st\<lparr>calls := calls st @ [(node, depth)], theRNG := g\<rparr>)"
    using out False opt by (simp add: grow.simps Let_def makeLeaf_def)
  then show ?thesis by blast
qed

lemma makeLeaf_leaf:
  "leaf (case makeLeaf dat node st of Inl (f, s) \<Rightarrow> s | Inr s \<Rightarrow> s) = leaf st"
  by (simp add: makeLeaf_def)

lemma weight_smaller_part:
  "length part < length parent \<Longrightarrow> weight part parent = Inr 0"
  by (auto simp: weight_def)

section \<open>The claims\<close>

lemmas eval0 = indeterminate6_def px2_def stream_of_def stream_then_def search_init_def
  optimizeTest_def generateTest_def uniform_def next_raw_def to_int_def to_unsigned_def
  evaluateTest_def at_uchar_def split_def upper_bound_def split_comp_def
  measureInformationGain_def weight_def lndet_def determinant_def covar_def mean_def DBL_MAX_def
  Let_def upper_bound_loop.simps

lemmas eval_defs = eval0 threshold_loop.simps outer_loop.simps grow.simps

subsection \<open>The split search at the root, for every number of thresholds\<close>

text \<open>
  On \<open>four_patches\<close> with the draws of \<open>four_draws\<close>, the first two tests of the split
  search compare a pixel with itself, and the threshold loop is not entered. The third
  test has the differences 0, 0, 0 and 10. Its first threshold is 0 and sends all twelve
  entries of \<open>valSet\<close> to \<open>tmpA\<close>; every later draw is 5. With two thresholds or more
  per test, the second threshold of the third test is 5 and sends all twelve entries to
  \<open>tmpB\<close>; the score is 0 and the candidate is taken. With one threshold per test, the
  fourth test compares a pixel with itself again, but \<open>valSet\<close> still holds the entry
  with the difference 10; the threshold 5 sends all sixteen entries to \<open>tmpB\<close>, and the
  candidate is taken. Whatever follows, \<open>ret\<close> stays set: the search succeeds for every
  positive number of thresholds per test.
\<close>

lemma four_same_size: "same_size 2 1 four_patches"
  by (simp add: same_size_def four_patches_def px2_def)

lemma root_first_two:
  "outer_loop four_patches 2 1 N 2 0 (search_init indeterminate6 [] [] four_draws) =
     Inr ((search_init indeterminate6 [] [] four_draws)
            \<lparr>valSet := zeros8, rng := four_draws\<lparr>pos := 8\<rparr>\<rparr>)"
  by (simp add: eval0 outer_loop.simps four_patches_def four_draws_def zeros8_def)

lemma root_third_test:
  "generateTest indeterminate6 2 1 (four_draws\<lparr>pos := 8\<rparr>) =
     ([Some 0, Some 0, Some 1, Some 0, None, None], four_draws\<lparr>pos := 12\<rparr>)"
  by (simp add: eval0 four_draws_def)

lemma root_third_values:
  "evaluateTest four_patches [Some 0, Some 0, Some 1, Some 0, None, None] zeros8 = Inr twelve"
  by (simp add: eval0 four_patches_def zeros8_def twelve_def)

lemma root_third_thresholds:
  "\<exists>s'. threshold_loop four_patches [Some 0, Some 0, Some 1, Some 0, None, None] 0 10 2 0
           ((search_init indeterminate6 [] [] four_draws)
              \<lparr>valSet := twelve, rng := four_draws\<lparr>pos := 12\<rparr>\<rparr>)
         = Inr s' \<and> ret s'"
  by (simp add: eval0 threshold_loop.simps four_patches_def twelve_def four_draws_def)


lemma four_nonempty: "four_patches \<noteq> []"
  by (simp add: four_patches_def)

lemma root_search_two:
  assumes N: "2 \<le> N"
  shows "\<exists>s'. outer_loop four_patches 2 1 N 4 0 (search_init indeterminate6 [] [] four_draws)
                = Inr s'
           \<and> ret s'"
proof -
  let ?init = "search_init indeterminate6 [] [] four_draws"
  let ?T = "[Some 0, Some 0, Some 1, Some 0, None, None]"
  let ?S2 = "?init\<lparr>valSet := zeros8, rng := four_draws\<lparr>pos := 8\<rparr>\<rparr>"
  let ?S3 = "?init\<lparr>valSet := twelve, rng := four_draws\<lparr>pos := 12\<rparr>\<rparr>"
  note dat = four_nonempty
  have inv2: "search_inv four_patches ?S2"
    using outer_loop_inv[OF dat search_init_inv root_first_two] by simp
  have ix: "list_all (\<lambda>v. index v < length four_patches) zeros8"
    using inv2 by (simp add: search_inv_def)
  note e = evaluateTest_inv[OF root_third_values dat ix]
  have inv3: "search_inv four_patches ?S3"
    using inv2 e by (simp add: search_inv_def covers_def search_init_def)
  have ne3: "valSet ?S3 \<noteq> []" using e(4) by simp
  from root_third_thresholds obtain Sacc where
    acc: "threshold_loop four_patches ?T 0 10 2 0 ?S3 = Inr Sacc" and racc: "ret Sacc"
    by blast
  from threshold_loop_run[OF dat _ inv3 ne3, of ?T 0 10 2 0] acc
  have invacc: "search_inv four_patches Sacc" and vacc: "valSet Sacc \<noteq> []"
    using e(4) by auto
  from threshold_loop_run[OF dat _ invacc vacc, of ?T 0 10 N 2] racc obtain s2 where
    rest: "threshold_loop four_patches ?T 0 10 N 2 Sacc = Inr s2"
    and inv2': "search_inv four_patches s2" and r2: "ret s2"
    by auto
  have th: "threshold_loop four_patches ?T 0 10 N 0 ?S3 = Inr s2"
    using threshold_loop_split[of 0 2 N four_patches ?T 0 10 ?S3] N acc rest by simp
  have "same_size 2 1 four_patches" by (rule four_same_size)
  from outer_loop_total[OF dat _ _ _ _ this inv2', of N 4 3] obtain s' where
    fin: "outer_loop four_patches 2 1 N 4 3 s2 = Inr s'"
    by auto
  from outer_loop_inv[OF dat inv2' fin] r2 have r': "ret s'" by simp
  have hd: "difference (hd twelve) = 0" "difference (last twelve) = 10" "twelve \<noteq> []"
    by (simp_all add: twelve_def)
  have third: "outer_loop four_patches 2 1 N 4 2 ?S2 = Inr s'"
    using outer_loop_step[of 2 4 2 1 ?S2 ?T "four_draws\<lparr>pos := 12\<rparr>" four_patches N]
      root_third_test root_third_values hd th fin
    by (simp add: search_init_def)
  have "outer_loop four_patches 2 1 N 4 0 ?init = Inr s'"
    using outer_loop_split[of 0 2 4 four_patches 2 1 N ?init] root_first_two[of N] third
    by simp
  with r' show ?thesis by blast
qed

lemma optimizeTest_four:
  "optimizeTest 1 [] [] four_patches 4 indeterminate6 four_draws =
     Inr (True, twelve_patches,
          four_patches @ four_patches @ take 3 four_patches @ four_patches @ drop 3 four_patches,
          [Some 1, Some 0, Some 1, Some 0, None, Some 5], four_draws\<lparr>pos := 18\<rparr>)"
  by (simp add: eval0 outer_loop.simps threshold_loop.simps four_patches_def four_draws_def
      twelve_patches_def)

lemma root_search:
  assumes "1 \<le> N"
  shows "\<exists>pA pB t g. optimizeTest N [] [] four_patches 4 indeterminate6 four_draws
                       = Inr (True, pA, pB, t, g)"
proof (cases "N = 1")
  case True
  then show ?thesis using optimizeTest_four by simp
next
  case False
  with assms have "2 \<le> N" by simp
  from root_search_two[OF this] show ?thesis
    by (auto simp: optimizeTest_def four_patches_def px2_def)
qed

subsection \<open>One run of the induction\<close>

text \<open>
  \<open>tree_d0\<close> is the constructor's result. With \<open>maxDepth = 0\<close> the root is at the depth
  limit. Its split search succeeds, the seven cells of the root are written, and the
  first part, which holds at least four patches, is given to \<open>grow\<close> at node 1 and
  depth 1. Node 1 lies outside the table of seven cells, and whether the search there
  succeeds or not, the next write is to cell 7.
\<close>

lemma new_tree_d0: "new_CRTree 1 0 0 (stream_of []) = Inr tree_d0"
  by (simp add: new_CRTree_def tree_d0_def numeral_eq_Suc)

lemma copies_same_size:
  assumes "set pA \<subseteq> set four_patches" "pA \<noteq> []"
  shows "cols (patch (pA ! 0)) = 2" "rows (patch (pA ! 0)) = 1" "same_size 2 1 pA"
proof -
  from four_same_size have all: "\<forall>p\<in>set four_patches. cols (patch p) = 2 \<and> rows (patch p) = 1
      \<and> length (pixels (patch p)) = 1 * 2"
    by (simp add: same_size_def list_all_iff)
  from assms have "pA ! 0 \<in> set four_patches" by (cases pA) auto
  with all show "cols (patch (pA ! 0)) = 2" "rows (patch (pA ! 0)) = 1" by simp_all
  from all assms(1) show "same_size 2 1 pA"
    by (auto simp: same_size_def list_all_iff)
qed

lemma growTree_four_any:
  assumes N: "1 \<le> N"
  shows "\<exists>tt g. growTree N four_patches four_draws tree_d0 =
            Inl (TableIndex 7, tree_d0\<lparr>theRNG := g, treetable := tt, calls := [(0, 0), (1, 1)]\<rparr>)
          \<and> tt ! 0 = Some (- 1) \<and> length tt = 7"
proof -
  from root_search[OF N] obtain pA pB t g where
    opt: "optimizeTest N [] [] four_patches 4 indeterminate6 four_draws = Inr (True, pA, pB, t, g)"
    by blast
  from optimizeTest_success_covers[OF opt] have
    sub: "mset four_patches \<subseteq># mset pA" and inc: "set pA \<subseteq> set four_patches"
    and lt: "length t = 6"
    by simp_all
  have len: "length four_patches = 4" by (simp add: four_patches_def)
  from size_mset_mono[OF sub] len have big: "4 \<le> length pA" by simp
  then have ne: "pA \<noteq> []" by auto
  have en: "enough pA 1" using big by (simp add: enough_def)
  let ?tt0 = "[Some 0, Some 0, Some 0, Some 0, Some 0, Some 0, Some (0::int)]"
  from write_cells_node[of 0 ?tt0 t "Some (- 1)"] lt obtain tt where
    w: "write_cells 0 (Some (- 1) # t) ?tt0 = Inr tt" and ltt: "length tt = 7"
    and first: "tt ! 0 = Some (- 1)"
    by auto
  let ?st1 = "tree_d0\<lparr>theRNG := g, treetable := tt, calls := [(0, 0)]\<rparr>"
  note c = copies_same_size[OF inc ne]
  from grow_outside[of ?st1 1 pA N 1 4] ltt ne c obtain g' where
    child: "grow N pA 1 1 4 ?st1 =
       Inl (TableIndex 7, ?st1\<lparr>calls := calls ?st1 @ [(1, 1)], theRNG := g'\<rparr>)"
    by auto
  have "growTree N four_patches four_draws tree_d0 =
      Inl (TableIndex 7, tree_d0\<lparr>theRNG := g', treetable := tt, calls := [(0, 0), (1, 1)]\<rparr>)"
    using opt w en child
    by (simp add: growTree_def len grow.simps[of N four_patches] Let_def tree_d0_def to_unsigned_def)
  with first ltt show ?thesis by blast
qed

subsection \<open>The split search on three patches with labels on a line\<close>

text \<open>
  On \<open>three_patches\<close> with the draws of \<open>three_draws\<close>, the first test compares a
  pixel with itself. The second test has the differences 0, 0 and 10; its first
  threshold is 0 and sends all six entries of \<open>valSet\<close> to \<open>tmpA\<close>, and every later draw
  is 5. With two thresholds or more per test, the second threshold of the second test
  sends all six entries to \<open>tmpB\<close>; with one threshold per test, the threshold of the
  third test sends all nine entries to \<open>tmpB\<close>. Either way \<open>tmpA\<close> and \<open>tmpB\<close> are
  both non-empty from then on and the candidate is scored, the score is a NaN, and the
  search fails.
\<close>

lemma three_same_size: "same_size 2 1 three_patches"
  by (simp add: same_size_def three_patches_def px2_def)

lemma three_on_a_line: "three_patches \<noteq> []" "\<forall>p\<in>set three_patches. pitch p = yaw p"
  by (simp_all add: three_patches_def px2_def)

lemma three_first:
  "outer_loop three_patches 2 1 N 1 0 (search_init indeterminate6 [] [] three_draws) =
     Inr ((search_init indeterminate6 [] [] three_draws)
            \<lparr>valSet := zeros3, rng := three_draws\<lparr>pos := 4\<rparr>\<rparr>)"
  by (simp add: eval0 outer_loop.simps three_patches_def three_draws_def zeros3_def)

lemma three_second_test:
  "generateTest indeterminate6 2 1 (three_draws\<lparr>pos := 4\<rparr>) =
     ([Some 0, Some 0, Some 1, Some 0, None, None], three_draws\<lparr>pos := 8\<rparr>)"
  by (simp add: eval0 three_draws_def)

lemma three_second_values:
  "evaluateTest three_patches [Some 0, Some 0, Some 1, Some 0, None, None] zeros3 = Inr six"
  by (simp add: eval0 three_patches_def zeros3_def six_def)

lemma three_second_thresholds:
  "\<exists>s'. threshold_loop three_patches [Some 0, Some 0, Some 1, Some 0, None, None] 0 10 2 0
           ((search_init indeterminate6 [] [] three_draws)
              \<lparr>valSet := six, rng := three_draws\<lparr>pos := 8\<rparr>\<rparr>)
         = Inr s' \<and> tmpA s' \<noteq> [] \<and> tmpB s' \<noteq> []"
  by (simp add: eval0 threshold_loop.simps three_patches_def six_def three_draws_def)

lemma three_search_one:
  "outer_loop three_patches 2 1 1 3 0 (search_init indeterminate6 [] [] three_draws) =
     Inr ((search_init indeterminate6 [] [] three_draws)
            \<lparr>tmpA := three_patches @ take 2 three_patches @ drop 2 three_patches,
             tmpB := three_patches @ take 2 three_patches @ three_patches @ drop 2 three_patches,
             valSet := map (\<lambda>i. \<lparr>difference = 0, index = i\<rparr>) [0, 1, 2, 0, 1, 0, 1, 2]
                       @ [\<lparr>difference = 10, index = 2\<rparr>],
             rng := three_draws\<lparr>pos := 14\<rparr>\<rparr>)"
  by (simp add: eval0 outer_loop.simps threshold_loop.simps three_patches_def three_draws_def)

lemma three_search_two:
  assumes N: "2 \<le> N"
  shows "\<exists>s'. outer_loop three_patches 2 1 N 3 0 (search_init indeterminate6 [] [] three_draws)
                = Inr s'
           \<and> tmpA s' \<noteq> [] \<and> tmpB s' \<noteq> []"
proof -
  let ?init = "search_init indeterminate6 [] [] three_draws"
  let ?T = "[Some 0, Some 0, Some 1, Some 0, None, None]"
  let ?S1 = "?init\<lparr>valSet := zeros3, rng := three_draws\<lparr>pos := 4\<rparr>\<rparr>"
  let ?S2 = "?init\<lparr>valSet := six, rng := three_draws\<lparr>pos := 8\<rparr>\<rparr>"
  note dat = three_on_a_line(1)
  have inv1: "search_inv three_patches ?S1"
    using outer_loop_inv[OF dat search_init_inv three_first] by simp
  have ix: "list_all (\<lambda>v. index v < length three_patches) zeros3"
    using inv1 by (simp add: search_inv_def)
  note e = evaluateTest_inv[OF three_second_values dat ix]
  have inv2: "search_inv three_patches ?S2"
    using inv1 e by (simp add: search_inv_def covers_def search_init_def)
  have ne2: "valSet ?S2 \<noteq> []" using e(4) by simp
  from three_second_thresholds obtain Sacc where
    acc: "threshold_loop three_patches ?T 0 10 2 0 ?S2 = Inr Sacc"
    and nacc: "tmpA Sacc \<noteq> []" "tmpB Sacc \<noteq> []"
    by blast
  from threshold_loop_run[OF dat _ inv2 ne2, of ?T 0 10 2 0] acc
  have invacc: "search_inv three_patches Sacc" and vacc: "valSet Sacc \<noteq> []"
    using e(4) by auto
  from threshold_loop_run[OF dat _ invacc vacc, of ?T 0 10 N 2] nacc obtain s2 where
    rest: "threshold_loop three_patches ?T 0 10 N 2 Sacc = Inr s2"
    and inv2': "search_inv three_patches s2" and n2: "tmpA s2 \<noteq> []" "tmpB s2 \<noteq> []"
    by auto
  have th: "threshold_loop three_patches ?T 0 10 N 0 ?S2 = Inr s2"
    using threshold_loop_split[of 0 2 N three_patches ?T 0 10 ?S2] N acc rest by simp
  from outer_loop_total[OF dat _ _ _ _ three_same_size inv2', of N 3 2] obtain s' where
    fin: "outer_loop three_patches 2 1 N 3 2 s2 = Inr s'"
    by auto
  from outer_loop_inv[OF dat inv2' fin] n2 have n': "tmpA s' \<noteq> []" "tmpB s' \<noteq> []" by auto
  have hd: "difference (hd six) = 0" "difference (last six) = 10" "six \<noteq> []"
    by (simp_all add: six_def)
  have second: "outer_loop three_patches 2 1 N 3 1 ?S1 = Inr s'"
    using outer_loop_step[of 1 3 2 1 ?S1 ?T "three_draws\<lparr>pos := 8\<rparr>" three_patches N]
      three_second_test three_second_values hd th fin
    by (simp add: search_init_def numeral_2_eq_2)
  have "outer_loop three_patches 2 1 N 3 0 ?init = Inr s'"
    using outer_loop_split[of 0 1 3 three_patches 2 1 N ?init] three_first[of N] second
    by simp
  with n' show ?thesis by blast
qed

lemma three_search_scored:
  assumes "1 \<le> N"
  shows "\<exists>s. outer_loop three_patches 2 1 N 3 0 (search_init indeterminate6 [] [] three_draws)
               = Inr s
           \<and> tmpA s \<noteq> [] \<and> tmpB s \<noteq> [] \<and> \<not> ret s
           \<and> measureInformationGain three_patches (tmpA s) (tmpB s) = Inr NaN"
proof -
  note dat = three_on_a_line
  have "\<exists>s'. outer_loop three_patches 2 1 N 3 0 (search_init indeterminate6 [] [] three_draws)
                = Inr s'
           \<and> tmpA s' \<noteq> [] \<and> tmpB s' \<noteq> []"
  proof (cases "N = 1")
    case True
    then show ?thesis using three_search_one by (simp add: three_patches_def)
  next
    case False
    with assms have "2 \<le> N" by simp
    then show ?thesis by (rule three_search_two)
  qed
  then obtain s where
    run: "outer_loop three_patches 2 1 N 3 0 (search_init indeterminate6 [] [] three_draws) = Inr s"
    and ne: "tmpA s \<noteq> []" "tmpB s \<noteq> []"
    by blast
  from outer_loop_inv[OF dat(1) search_init_inv run]
  have sub: "set (tmpA s) \<subseteq> set three_patches" "set (tmpB s) \<subseteq> set three_patches"
    by (simp_all add: search_inv_def)
  from outer_loop_unscored[OF dat search_init_inv run] have "\<not> ret s"
    by (simp add: search_init_def)
  with run ne score_diagonal[OF dat ne(1) sub(1) ne(2) sub(2)] show ?thesis by simp
qed

lemma optimizeTest_three_fails:
  "\<exists>g'. optimizeTest N pA pB three_patches iter t g = Inr (False, pA, pB, t, g')"
proof -
  note dat = three_on_a_line
  have d: "cols (patch (three_patches ! 0)) = 2" "rows (patch (three_patches ! 0)) = 1"
    by (simp_all add: three_patches_def px2_def)
  from outer_loop_total[OF dat(1) _ _ _ _ three_same_size search_init_inv, of N iter 0 t pA pB g]
  obtain s where run: "outer_loop three_patches 2 1 N iter 0 (search_init t pA pB g) = Inr s"
    by auto
  from outer_loop_unscored[OF dat search_init_inv run]
  have "ret s = False" "partA s = pA" "partB s = pB" "test s = t"
    by (simp_all add: search_init_def)
  with run dat(1) d show ?thesis by (simp add: optimizeTest_def)
qed

subsection \<open>The claims, one by one\<close>

text \<open>
  C1. The claim: a node processed at a depth \<open>\<ge> maxDepth\<close> is forced to become a leaf
  before any split search, and with \<open>maxDepth = 0\<close> the induction from a non-empty
  training set produces a single leaf. On the code this fails: the test in \<open>grow\<close> is
  \<open>depth < maxDepth\<close>. With \<open>maxDepth = 0\<close> and \<open>four_patches\<close>, for every positive
  number \<open>Suc N\<close> of thresholds per test, the root, at depth 0, is given to the split
  search, becomes an internal node (its first cell holds the marker \<open>-1\<close>), and the run
  ends in a write outside the table before any leaf exists.
\<close>

theorem C1_root_is_split_at_depth_limit:
  "new_CRTree 1 0 0 (stream_of []) = Inr tree_d0
   \<and> (case growTree (Suc N) four_patches four_draws tree_d0 of
         Inl (f, st) \<Rightarrow> f = TableIndex 7 \<and> treetable st ! 0 = Some (- 1) \<and> numLeaves st = 0
       | Inr st \<Rightarrow> False)"
proof -
  from growTree_four_any[of "Suc N"] obtain tt g where
    "growTree (Suc N) four_patches four_draws tree_d0 =
       Inl (TableIndex 7, tree_d0\<lparr>theRNG := g, treetable := tt, calls := [(0, 0), (1, 1)]\<rparr>)"
    "tt ! 0 = Some (- 1)"
    by auto
  then show ?thesis by (simp add: new_tree_d0) (simp add: tree_d0_def)
qed

text \<open>
  C2. The claim: no call of \<open>grow\<close> has a depth argument greater than \<open>maxDepth\<close>. On
  the code this fails: in the same runs, with \<open>maxDepth = 0\<close>, \<open>grow\<close> is entered at node
  1 with depth 1.
\<close>

theorem C2_grow_called_below_depth_limit:
  "maxDepth tree_d0 = 0
   \<and> (case growTree (Suc N) four_patches four_draws tree_d0 of
         Inl (f, st) \<Rightarrow> calls st = [(0, 0), (1, 1)]
       | Inr st \<Rightarrow> False)"
proof -
  from growTree_four_any[of "Suc N"] obtain tt g where
    "growTree (Suc N) four_patches four_draws tree_d0 =
       Inl (TableIndex 7, tree_d0\<lparr>theRNG := g, treetable := tt, calls := [(0, 0), (1, 1)]\<rparr>)"
    by auto
  then show ?thesis by simp (simp add: tree_d0_def)
qed

text \<open>
  C3. The claim: every write to the node table uses a node index below \<open>numNodes\<close>. On
  the code this fails: in the same runs the table has \<open>numNodes = 1\<close> node, that is 7
  cells, and the run writes to cell 7, the first cell of node 1.
\<close>

theorem C3_write_outside_node_table:
  "numNodes tree_d0 = 1 \<and> length (treetable tree_d0) = 7
   \<and> (case growTree (Suc N) four_patches four_draws tree_d0 of
         Inl (f, st) \<Rightarrow> f = TableIndex 7 \<and> length (treetable st) = 7
       | Inr st \<Rightarrow> False)"
proof -
  from growTree_four_any[of "Suc N"] obtain tt g where
    "growTree (Suc N) four_patches four_draws tree_d0 =
       Inl (TableIndex 7, tree_d0\<lparr>theRNG := g, treetable := tt, calls := [(0, 0), (1, 1)]\<rparr>)"
    "length tt = 7"
    by auto
  then show ?thesis by simp (simp add: tree_d0_def)
qed

text \<open>
  C4. The claim: for every sorted difference sequence and every threshold \<open>tr\<close>, split
  puts exactly the patches with difference \<open>\<le> tr\<close> into partA and those with
  difference \<open>> tr\<close> into partB. On the code this fails. Five patches with the
  differences 1 to 5 are evaluated to the sorted sequence below; with the threshold 3,
  split puts all five into partA and none into partB (the claim has three and two), and
  with the threshold 4 it puts none into partA and all five into partB (the claim has
  four and one). With the threshold 1, the smallest difference, no entry lies below the
  threshold, the search returns the end of the sequence whichever way it probes, and all
  five go to partA (the claim has one and four). The comparison handed to the
  upper-bound search is \<open>a.difference < threshold\<close>, the reverse of what that search
  expects; \<open>split_sorted\<close> above has the outcome for every sorted sequence.
\<close>

theorem C4_split_is_one_sided:
  "evaluateTest five_patches [Some 0, Some 0, Some 1, Some 0, None, None] [] =
     Inr [\<lparr>difference = 1, index = 0\<rparr>, \<lparr>difference = 2, index = 1\<rparr>,
          \<lparr>difference = 3, index = 2\<rparr>, \<lparr>difference = 4, index = 3\<rparr>,
          \<lparr>difference = 5, index = 4\<rparr>]
   \<and> split five_patches 3
        [\<lparr>difference = 1, index = 0\<rparr>, \<lparr>difference = 2, index = 1\<rparr>,
         \<lparr>difference = 3, index = 2\<rparr>, \<lparr>difference = 4, index = 3\<rparr>,
         \<lparr>difference = 5, index = 4\<rparr>] [] []
      = Inr (five_patches, [])
   \<and> split five_patches 4
        [\<lparr>difference = 1, index = 0\<rparr>, \<lparr>difference = 2, index = 1\<rparr>,
         \<lparr>difference = 3, index = 2\<rparr>, \<lparr>difference = 4, index = 3\<rparr>,
         \<lparr>difference = 5, index = 4\<rparr>] [] []
      = Inr ([], five_patches)
   \<and> split five_patches 1
        [\<lparr>difference = 1, index = 0\<rparr>, \<lparr>difference = 2, index = 1\<rparr>,
         \<lparr>difference = 3, index = 2\<rparr>, \<lparr>difference = 4, index = 3\<rparr>,
         \<lparr>difference = 5, index = 4\<rparr>] [] []
      = Inr (five_patches, [])"
  by (simp add: eval_defs five_patches_def)

text \<open>
  C5. The claim: whenever split search returns success, partA and partB are disjoint,
  both non-empty, and add up to the parent set as multisets. On the code this fails:
  \<open>tmpA\<close> and \<open>tmpB\<close> are never emptied, and every call of \<open>split\<close> appends the patches
  of all entries of \<open>valSet\<close> to one of them. On \<open>four_patches\<close>, for every positive
  number \<open>Suc N\<close> of thresholds per test, the search succeeds and each of the two parts
  holds every patch of the parent set; with one threshold per test the parts are three
  copies and four copies of the parent set. By \<open>optimizeTest_success_no_partition\<close>
  above, no successful search returns a partition.
\<close>

theorem C5_accepted_split_is_no_partition:
  "(case optimizeTest (Suc N) [] [] four_patches 4 indeterminate6 four_draws of
      Inl e \<Rightarrow> False
    | Inr (found, pA, pB, t, g) \<Rightarrow>
        found \<and> mset four_patches \<subseteq># mset pA \<and> mset four_patches \<subseteq># mset pB
        \<and> \<not> partition_law four_patches pA pB)
   \<and> optimizeTest 1 [] [] four_patches 4 indeterminate6 four_draws =
       Inr (True, twelve_patches,
            four_patches @ four_patches @ take 3 four_patches @ four_patches
              @ drop 3 four_patches,
            [Some 1, Some 0, Some 1, Some 0, None, Some 5], four_draws\<lparr>pos := 18\<rparr>)
   \<and> length four_patches = 4 \<and> length twelve_patches = 12"
proof -
  from root_search[of "Suc N"] obtain pA pB t g where
    opt: "optimizeTest (Suc N) [] [] four_patches 4 indeterminate6 four_draws =
            Inr (True, pA, pB, t, g)"
    by auto
  from optimizeTest_success_covers[OF opt] optimizeTest_success_no_partition[OF opt]
  have "mset four_patches \<subseteq># mset pA" "mset four_patches \<subseteq># mset pB"
    "\<not> partition_law four_patches pA pB"
    by simp_all
  with opt have "case optimizeTest (Suc N) [] [] four_patches 4 indeterminate6 four_draws of
      Inl e \<Rightarrow> False
    | Inr (found, pA, pB, t, g) \<Rightarrow>
        found \<and> mset four_patches \<subseteq># mset pA \<and> mset four_patches \<subseteq># mset pB
        \<and> \<not> partition_law four_patches pA pB"
    by simp
  moreover note optimizeTest_four
  moreover have "length four_patches = 4" "length twelve_patches = 12"
    by (simp_all add: twelve_patches_def four_patches_def)
  ultimately show ?thesis by (intro conjI)
qed

text \<open>
  C6. The claim: every invocation of the test evaluator within split search produces
  exactly one entry per patch of the working set, also on the second and later outer
  iterations. On the code this fails: \<open>valSet\<close> is declared before the outer loop and
  \<open>evaluateTest\<close> appends to it (\<open>evaluateTest_length\<close>, \<open>outer_loop_valSet_length\<close>).
  After two outer iterations over the four patches \<open>valSet\<close> holds eight entries,
  whatever the number of thresholds \<open>N\<close> is.
\<close>

theorem C6_valSet_accumulates:
  "(case outer_loop four_patches 2 1 N 2 0 (search_init indeterminate6 [] [] (stream_of [])) of
      Inl e \<Rightarrow> False
    | Inr s \<Rightarrow> length (valSet s) = 8 \<and> length four_patches = 4)"
  by (simp add: eval_defs four_patches_def)

text \<open>
  C7. The claim: the weights of the score are the exact ratios of the sizes, so that a
  half-sized child has the weight 1/2. On the code this fails: the quotient of the two
  sizes is taken in integers. For a parent of eight patches and two children of four,
  both weights are 0 and the score is the parent's term \<open>ln 16\<close> alone; with the weights
  1/2 the score is 0.
\<close>

theorem C7_weights_are_integer_quotients:
  "weight cluster (cluster @ cluster) = Inr 0
   \<and> measureInformationGain (cluster @ cluster) cluster cluster = Inr (Fin (ln 16))
   \<and> spec_information_gain (cluster @ cluster) cluster cluster = Fin 0
   \<and> Fin (ln 16) \<noteq> Fin 0"
  by (simp add: eval_defs cluster_def spec_information_gain_def)

text \<open>
  C8. The claim: split search fails if and only if no candidate was ever accepted for
  scoring, and succeeds whenever a non-degenerate test yields a threshold with two
  non-empty parts. On the code this fails: \<open>ret\<close> is set only when the score exceeds
  the best score so far, and a NaN exceeds nothing. On \<open>three_patches\<close>, for every
  positive number \<open>Suc N\<close> of thresholds per test, the second test is not degenerate,
  the search ends with \<open>tmpA\<close> and \<open>tmpB\<close> both non-empty, so a candidate was scored;
  the score is NaN (the labels lie on a line, the covariance matrix is singular), and
  the search returns failure. With one threshold per test the final state is the one
  below. On \<open>three_patches\<close> the search returns failure, and leaves the output vectors
  and the output test as they were, for every number \<open>M\<close> of thresholds, every number
  of iterations and every generator.
\<close>

theorem C8_scored_candidate_but_failure:
  "(case outer_loop three_patches 2 1 (Suc N) 3 0
           (search_init indeterminate6 [] [] three_draws) of
      Inl e \<Rightarrow> False
    | Inr s \<Rightarrow> tmpA s \<noteq> [] \<and> tmpB s \<noteq> [] \<and> \<not> ret s
              \<and> measureInformationGain three_patches (tmpA s) (tmpB s) = Inr NaN)
   \<and> outer_loop three_patches 2 1 1 3 0 (search_init indeterminate6 [] [] three_draws) =
       Inr ((search_init indeterminate6 [] [] three_draws)
              \<lparr>tmpA := three_patches @ take 2 three_patches @ drop 2 three_patches,
               tmpB := three_patches @ take 2 three_patches @ three_patches
                       @ drop 2 three_patches,
               valSet := map (\<lambda>i. \<lparr>difference = 0, index = i\<rparr>) [0, 1, 2, 0, 1, 0, 1, 2]
                         @ [\<lparr>difference = 10, index = 2\<rparr>],
               rng := three_draws\<lparr>pos := 14\<rparr>\<rparr>)
   \<and> optimizeTest 1 [] [] three_patches 3 indeterminate6 three_draws
       = Inr (False, [], [], indeterminate6, three_draws\<lparr>pos := 14\<rparr>)
   \<and> (\<exists>g'. optimizeTest M pA pB three_patches iter t g = Inr (False, pA, pB, t, g'))"
proof -
  from three_search_scored[of "Suc N"]
  have "case outer_loop three_patches 2 1 (Suc N) 3 0
               (search_init indeterminate6 [] [] three_draws) of
      Inl e \<Rightarrow> False
    | Inr s \<Rightarrow> tmpA s \<noteq> [] \<and> tmpB s \<noteq> [] \<and> \<not> ret s
              \<and> measureInformationGain three_patches (tmpA s) (tmpB s) = Inr NaN"
    by auto
  moreover note three_search_one
  moreover have "optimizeTest 1 [] [] three_patches 3 indeterminate6 three_draws
       = Inr (False, [], [], indeterminate6, three_draws\<lparr>pos := 14\<rparr>)"
    using three_search_one
    by (simp add: optimizeTest_def search_init_def three_patches_def px2_def)
  moreover note optimizeTest_three_fails[of M pA pB iter t g]
  ultimately show ?thesis by (intro conjI)
qed

text \<open>
  C9. The claim: \<open>makeLeaf\<close> writes the current \<open>numLeaves\<close> into the node table at the
  node, increments \<open>numLeaves\<close>, and computes and stores the statistics of the leaf, at
  least the count of its patches. The first three hold; the last fails on the code, which
  leaves the statistics as a TODO. A leaf made from four patches at node 0, when three
  leaves exist already, sets the first cell of the node to 3 and the counter to 4; the
  leaf array still holds the count 0 it was constructed with. For every working set,
  node and tree, the leaf array after \<open>makeLeaf\<close> is the leaf array before it.
\<close>

theorem C9_makeLeaf_stores_no_statistics:
  "makeLeaf four_patches 0 (tree_d0\<lparr>numLeaves := 3\<rparr>) =
     Inr (tree_d0\<lparr>numLeaves := 4,
                  treetable := [Some 3, Some 0, Some 0, Some 0, Some 0, Some 0, Some 0]\<rparr>)
   \<and> leaf (tree_d0\<lparr>numLeaves := 4,
                   treetable := [Some 3, Some 0, Some 0, Some 0, Some 0, Some 0, Some 0]\<rparr>) = [0]
   \<and> length four_patches = 4
   \<and> leaf (case makeLeaf dat node st of Inl (f, s) \<Rightarrow> s | Inr s \<Rightarrow> s) = leaf st"
  by (simp add: makeLeaf_def tree_d0_def four_patches_def)

text \<open>
  C10. Split search reads the patch at index 0 of its working set before anything else:
  on an empty working set it faults, whatever the number of iterations, the output
  vectors and the generator are. In \<open>grow\<close>, and so in \<open>growTree\<close>, an empty training
  set reaches that read exactly when the depth test does not turn the node into a leaf
  first, that is, when \<open>depth < maxDepth\<close> is false.
\<close>

theorem C10_split_search_reads_first_patch:
  "optimizeTest N pA pB [] iter t g = Inl VectorIndex
   \<and> grow N [] node depth samples st =
       (if depth < to_unsigned (maxDepth st)
        then makeLeaf [] node (st\<lparr>calls := calls st @ [(node, depth)]\<rparr>)
        else Inl (VectorIndex, st\<lparr>calls := calls st @ [(node, depth)]\<rparr>))
   \<and> growTree N [] seeded st =
       (if 0 < to_unsigned (maxDepth st)
        then makeLeaf [] 0 (st\<lparr>theRNG := seeded, calls := calls st @ [(0, 0)]\<rparr>)
        else Inl (VectorIndex, st\<lparr>theRNG := seeded, calls := calls st @ [(0, 0)]\<rparr>))"
  by (simp add: optimizeTest_def growTree_def grow.simps Let_def)

end
